theory Spec2Isabelle
  imports Main
begin

section \<open>The Go runtime: integers and unbuffered channels\<close>

text \<open>
  Go's \<^verbatim>\<open>int\<close> is a machine integer: 64 bits wide on the 64-bit platforms, which is
  the width taken here. Arithmetic on it wraps around; \<open>wrap64\<close> brings an integer
  back into the range from \<open>-2^63\<close> to \<open>2^63 - 1\<close> (\<open>int64\<close>).
\<close>

definition wrap64 :: "int \<Rightarrow> int" where
  "wrap64 x = (x + 9223372036854775808) mod 18446744073709551616 - 9223372036854775808"

definition int64 :: "int \<Rightarrow> bool" where
  "int64 x \<longleftrightarrow> - 9223372036854775808 \<le> x \<and> x < 9223372036854775808"

text \<open>
  Every wait entry owns one channel made by \<^verbatim>\<open>make(chan struct{})\<close>: an unbuffered
  channel with exactly one receiver, the goroutine that called \<^verbatim>\<open>Wait\<close>. Channels are
  shared between the wait list and the waiting goroutine, so they live in an explicit
  store: the list of all channels made so far, a channel's address being its index.
  \<^item> \<open>closed\<close>: \<^verbatim>\<open>close\<close> has been executed on the channel;
  \<^item> \<open>parked\<close>: the receiving goroutine is blocked in a \<^verbatim>\<open>select\<close> that has the
    case \<^verbatim>\<open><-ch\<close>.

  A call either returns, panics, or blocks forever.
\<close>

record chan =
  closed :: bool
  parked :: bool

type_synonym chans = "chan list"

datatype status = Returned | Panicked | Blocked

definition make_chan :: "chans \<Rightarrow> nat \<times> chans" where
  "make_chan chs = (length chs, chs @ [\<lparr>closed = False, parked = False\<rparr>])"

text \<open>
  \<^verbatim>\<open>close(ch)\<close> panics on a closed channel (and on one that was never made); otherwise it
  closes the channel, which also wakes a parked receiver.
\<close>

definition chan_close :: "nat \<Rightarrow> chans \<Rightarrow> chans option" where
  "chan_close c chs =
     (if c < length chs \<and> \<not> closed (chs ! c)
      then Some (chs[c := \<lparr>closed = True, parked = False\<rparr>])
      else None)"

text \<open>
  \<^verbatim>\<open>ch <- struct{}{}\<close> on an unbuffered channel panics when the channel is closed,
  completes when the receiver is parked on it (the receiver takes the value and leaves its
  \<^verbatim>\<open>select\<close>), and otherwise blocks: the only goroutine that ever receives on the
  channel is gone, so it blocks forever.
\<close>

definition chan_send :: "nat \<Rightarrow> chans \<Rightarrow> status \<times> chans" where
  "chan_send c chs =
     (if c < length chs
      then (if closed (chs ! c) then (Panicked, chs)
            else if parked (chs ! c) then (Returned, chs[c := (chs ! c)\<lparr>parked := False\<rparr>])
            else (Blocked, chs))
      else (Blocked, chs))"

text \<open>The receiver enters, respectively leaves, its \<^verbatim>\<open>select\<close>.\<close>

definition park :: "nat \<Rightarrow> chans \<Rightarrow> chans" where
  "park c chs = (if c < length chs then chs[c := (chs ! c)\<lparr>parked := True\<rparr>] else chs)"

definition unpark :: "nat \<Rightarrow> chans \<Rightarrow> chans" where
  "unpark c chs = (if c < length chs then chs[c := (chs ! c)\<lparr>parked := False\<rparr>] else chs)"

text \<open>
  The channels that a call has closed: open before it and closed after it. This is how
  a caller comes to know that it was admitted, and it is read off the channels, not off
  the wait structure.
\<close>

definition fired :: "chans \<Rightarrow> chans \<Rightarrow> nat list" where
  "fired chs chs' =
     filter (\<lambda>c. c < length chs \<and> \<not> closed (chs ! c) \<and> closed (chs' ! c)) [0 ..< length chs']"

section \<open>The FIFO gate: \<^verbatim>\<open>Limiter\<close>\<close>

text \<open>
  The struct \<^verbatim>\<open>Limiter\<close>. \<open>mu\<close> says whether the mutex is held. Every function below
  is one critical section of the source, executed atomically: it finds the mutex free
  and leaves it free, unless it stops inside: a call that blocks while it holds the
  mutex keeps it for good, and so does a call that panics with no deferred
  \<^verbatim>\<open>Unlock\<close>. A call that finds the mutex held therefore blocks in \<^verbatim>\<open>Lock\<close>. A
  \<^verbatim>\<open>waiter\<close> holds nothing but its \<^verbatim>\<open>done\<close> channel, so the wait list is the list of
  these channels, front first.
\<close>

record Limiter =
  count :: int
  limit :: int
  mu :: bool
  waitList :: "nat list"
  timeout :: "int option"

type_synonym fifo = "Limiter \<times> chans"

definition WithTimeout :: "int \<Rightarrow> Limiter \<Rightarrow> Limiter" where
  "WithTimeout t l = l\<lparr>timeout := Some t\<rparr>"

definition New :: "int \<Rightarrow> (Limiter \<Rightarrow> Limiter) list \<Rightarrow> Limiter" where
  "New lim options =
     fold (\<lambda>opt l. opt l) options
       \<lparr>count = 0, limit = lim, mu = False, waitList = [], timeout = None\<rparr>"

text \<open>
  \<^verbatim>\<open>proceed\<close> unlocks by \<^verbatim>\<open>defer\<close>. Its results are meaningful when it returns.
\<close>

definition Limiter_proceed :: "fifo \<Rightarrow> status \<times> (bool \<times> nat option) \<times> fifo" where
  "Limiter_proceed s =
     (case s of (l, chs) \<Rightarrow>
        if mu l then (Blocked, (False, None), s)
        else if count l < limit l
        then (Returned, (True, None), (l\<lparr>count := wrap64 (count l + 1)\<rparr>, chs))
        else (case make_chan chs of (ch, chs') \<Rightarrow>
                (Returned, (False, Some ch), (l\<lparr>waitList := waitList l @ [ch]\<rparr>, chs'))))"

text \<open>
  The loop of \<^verbatim>\<open>removeWaiter\<close> over the wait list: \<open>Some\<close> of the list without the
  first entry whose channel is \<open>ch\<close>, or \<open>None\<close> when the loop reaches the end.
\<close>

fun removeWaiter_loop :: "nat \<Rightarrow> nat list \<Rightarrow> nat list option" where
  "removeWaiter_loop ch [] = None"
| "removeWaiter_loop ch (w # ws) =
     (if w = ch then Some ws else map_option ((#) w) (removeWaiter_loop ch ws))"

text \<open>\<^verbatim>\<open>removeWaiter\<close> unlocks at its end, not by \<^verbatim>\<open>defer\<close>.\<close>

definition Limiter_removeWaiter :: "nat \<Rightarrow> fifo \<Rightarrow> status \<times> fifo" where
  "Limiter_removeWaiter ch s =
     (case s of (l, chs) \<Rightarrow>
        if mu l then (Blocked, s)
        else
          (case removeWaiter_loop ch (waitList l) of
             None \<Rightarrow> (Returned, (l, chs))
           | Some ws \<Rightarrow>
               (case chan_close ch chs of
                  None \<Rightarrow> (Panicked, (l\<lparr>mu := True\<rparr>, chs))
                | Some chs' \<Rightarrow>
                    (Returned, (l\<lparr>waitList := ws, count := wrap64 (count l + 1)\<rparr>, chs')))))"

text \<open>
  \<^verbatim>\<open>Finish\<close> unlocks by \<^verbatim>\<open>defer\<close>: the mutex is free again when it returns or
  panics, and stays held when the send blocks.
\<close>

definition Limiter_Finish :: "fifo \<Rightarrow> status \<times> fifo" where
  "Limiter_Finish s =
     (case s of (l, chs) \<Rightarrow>
        if mu l then (Blocked, s)
        else
          (let l1 = l\<lparr>count := wrap64 (count l - 1)\<rparr> in
           case waitList l1 of
             [] \<Rightarrow> (Returned, (l1, chs))
           | first # rest \<Rightarrow>
               (let l2 = l1\<lparr>waitList := rest\<rparr> in
                case chan_send first chs of
                  (Returned, chs1) \<Rightarrow>
                    (case chan_close first chs1 of
                       None \<Rightarrow> (Panicked, (l2, chs1))
                     | Some chs2 \<Rightarrow> (Returned, (l2, chs2)))
                | (Panicked, chs1) \<Rightarrow> (Panicked, (l2, chs1))
                | (Blocked, chs1) \<Rightarrow> (Blocked, (l2\<lparr>mu := True\<rparr>, chs1)))))"

definition Limiter_waitListSize :: "fifo \<Rightarrow> status \<times> nat" where
  "Limiter_waitListSize s =
     (if mu (fst s) then (Blocked, 0) else (Returned, length (waitList (fst s))))"

text \<open>
  \<^verbatim>\<open>Wait\<close> in parts. \<open>Limiter_Wait_begin\<close> is the call of \<^verbatim>\<open>proceed\<close>; a caller
  that was queued then parks in its \<^verbatim>\<open>select\<close>. When a case of the \<^verbatim>\<open>select\<close> is
  chosen the caller leaves the \<^verbatim>\<open>select\<close> (\<open>unpark\<close>) and then runs the body of the
  case (\<open>Limiter_Wait_case\<close>); other goroutines may run in between.
  \<open>Limiter_Wait_select\<close> is the two steps in one. Which \<^verbatim>\<open>select\<close> the caller sits in
  depends on \<^verbatim>\<open>l.timeout\<close>. The case \<^verbatim>\<open><-ch\<close> is the receiving half of the send in
  \<^verbatim>\<open>Finish\<close>. A case that the \<^verbatim>\<open>select\<close> does not have (the timer without a
  timeout, the ticker of the priority gate) gives \<open>None\<close>.
\<close>

datatype select_case = RecvDone | TimerFired | CtxDone | TickerFired

definition Limiter_Wait_begin :: "fifo \<Rightarrow> status \<times> (bool \<times> nat option) \<times> fifo" where
  "Limiter_Wait_begin s =
     (case Limiter_proceed s of
        (Returned, (False, Some ch), (l, chs)) \<Rightarrow>
          (Returned, (False, Some ch), (l, park ch chs))
      | r \<Rightarrow> r)"

definition Limiter_Wait_case :: "select_case \<Rightarrow> nat \<Rightarrow> fifo \<Rightarrow> (status \<times> fifo) option" where
  "Limiter_Wait_case c ch s =
     (if timeout (fst s) \<noteq> None then
        (case c of
           RecvDone \<Rightarrow> Some (Returned, s)
         | TimerFired \<Rightarrow> Some (Limiter_removeWaiter ch s)
         | CtxDone \<Rightarrow> Some (Returned, s)
         | TickerFired \<Rightarrow> None)
      else
        (case c of
           RecvDone \<Rightarrow> Some (Returned, s)
         | TimerFired \<Rightarrow> None
         | CtxDone \<Rightarrow> Some (Limiter_removeWaiter ch s)
         | TickerFired \<Rightarrow> None))"

definition Limiter_Wait_select :: "select_case \<Rightarrow> nat \<Rightarrow> fifo \<Rightarrow> (status \<times> fifo) option" where
  "Limiter_Wait_select c ch s =
     (case s of (l, chs) \<Rightarrow> Limiter_Wait_case c ch (l, unpark ch chs))"

subsection \<open>Runs of acquire and release calls\<close>

text \<open>
  A run without cancellation or timeout is a list of \<open>Acquire\<close> (a caller enters
  \<^verbatim>\<open>Wait\<close>) and \<open>Release\<close> (a caller inside calls \<^verbatim>\<open>Finish\<close>). Each call is logged with
  what it did to admission: the caller went in on the fast path or was queued; a
  release woke the caller whose channel it closed, who thereby goes in (\<open>HandOff\<close>), or
  nobody. The run stops at the first call that does not return.
\<close>

datatype op = Acquire | Release

datatype 'w admission = FastPath | Queued 'w | HandOff nat | NoOne

definition woken :: "chans \<Rightarrow> chans \<Rightarrow> 'w admission" where
  "woken chs chs' = (case fired chs chs' of [] \<Rightarrow> NoOne | c # cs \<Rightarrow> HandOff c)"

definition Limiter_step :: "op \<Rightarrow> fifo \<Rightarrow> status \<times> nat admission \<times> fifo" where
  "Limiter_step a s =
     (case a of
        Acquire \<Rightarrow>
          (case Limiter_Wait_begin s of
             (st, (False, Some ch), s') \<Rightarrow> (st, Queued ch, s')
           | (st, r, s') \<Rightarrow> (st, FastPath, s'))
      | Release \<Rightarrow>
          (case Limiter_Finish s of (st, s') \<Rightarrow> (st, woken (snd s) (snd s'), s')))"

fun Limiter_run :: "op list \<Rightarrow> fifo \<Rightarrow> status \<times> nat admission list \<times> fifo" where
  "Limiter_run [] s = (Returned, [], s)"
| "Limiter_run (a # as) s =
     (case Limiter_step a s of
        (Returned, adm, s') \<Rightarrow>
          (case Limiter_run as s' of (st, log, s'') \<Rightarrow> (st, adm # log, s''))
      | (st, adm, s') \<Rightarrow> (st, [], s'))"

text \<open>
  The callers inside the gate after a run: one more for every fast-path admission, one
  less for every release that wakes nobody (a hand-off replaces the caller that leaves
  by the caller that is woken).
\<close>

fun inside :: "'w admission list \<Rightarrow> int" where
  "inside [] = 0"
| "inside (FastPath # log) = inside log + 1"
| "inside (NoOne # log) = inside log - 1"
| "inside (a # log) = inside log"

section \<open>The priority wait queue\<close>

text \<open>
  The priority gate imports the package \<^verbatim>\<open>queue\<close>, which is not among the sources:
  \<^verbatim>\<open>Item\<close>, \<^verbatim>\<open>PriorityQueue\<close> with its \<^verbatim>\<open>Len\<close>, \<^verbatim>\<open>Update\<close> and \<^verbatim>\<open>GetIndex\<close>, and
  the \<^verbatim>\<open>Less\<close>, \<^verbatim>\<open>Swap\<close>, \<^verbatim>\<open>Push\<close> and \<^verbatim>\<open>Pop\<close> that \<^verbatim>\<open>container/heap\<close> calls on it.
  The gate's code shows two fields of an item, \<^verbatim>\<open>Priority\<close> and \<^verbatim>\<open>Done\<close>. Everything
  else in this section follows the spec's description of the queue: an ordered container
  keyed by priority descending, then arrival sequence ascending, with insertion, removal
  of the best entry, promotion of an entry in place, removal of a known entry (a no-op
  when the entry is no longer present) and a length.

  The model keeps the entries as a list in that order, best first, and numbers arrivals
  with a counter. An \<^verbatim>\<open>*Item\<close> is identified by its \<^verbatim>\<open>Done\<close> channel, which is made
  fresh for every item. Only the goroutine that owns an item ever changes its priority,
  so the owner's copy of the item and the queue's copy agree.
\<close>

text \<open>
  Modelled from the spec: the type \<^verbatim>\<open>queue.Item\<close>; \<open>sequence\<close> is the spec's arrival
  sequence of a wait entry, immutable and used as the tie-break only.
\<close>

record Item =
  Done :: nat
  Priority :: int
  sequence :: nat

text \<open>
  Modelled from the spec: the type \<^verbatim>\<open>queue.PriorityQueue\<close>, as the list of its entries
  in the queue's order and the number of arrivals so far.
\<close>

record PriorityQueue =
  items :: "Item list"
  arrivals :: nat

text \<open>
  Modelled from the spec: the order of the queue (\<^verbatim>\<open>Less\<close>), higher priority first
  and, at equal priority, lower sequence first.
\<close>

definition before :: "Item \<Rightarrow> Item \<Rightarrow> bool" where
  "before a b \<longleftrightarrow>
     Priority a > Priority b \<or> (Priority a = Priority b \<and> sequence a < sequence b)"

text \<open>Modelled from the spec: an entry takes its place in the order.\<close>

fun pq_insert :: "Item \<Rightarrow> Item list \<Rightarrow> Item list" where
  "pq_insert x [] = [x]"
| "pq_insert x (y # ys) = (if before x y then x # y # ys else y # pq_insert x ys)"

text \<open>Modelled from the spec: the queue made by \<^verbatim>\<open>make(queue.PriorityQueue, 0)\<close>.\<close>

definition pq_empty :: PriorityQueue where
  "pq_empty = \<lparr>items = [], arrivals = 0\<rparr>"

text \<open>Modelled from the spec: \<^verbatim>\<open>Len\<close>, the current size.\<close>

definition pq_Len :: "PriorityQueue \<Rightarrow> nat" where
  "pq_Len q = length (items q)"

text \<open>
  Modelled from the spec: \<^verbatim>\<open>heap.Push\<close> of a new item (the spec's insert); the queue
  stamps the item with the next arrival number.
\<close>

definition pq_Push :: "nat \<Rightarrow> int \<Rightarrow> PriorityQueue \<Rightarrow> Item \<times> PriorityQueue" where
  "pq_Push ch prio q =
     (let w = \<lparr>Done = ch, Priority = prio, sequence = arrivals q\<rparr>
      in (w, \<lparr>items = pq_insert w (items q), arrivals = arrivals q + 1\<rparr>))"

text \<open>
  Modelled from the spec: \<^verbatim>\<open>heap.Pop\<close> (the spec's removal of the best entry), \<open>None\<close>
  on an empty queue; the gate calls it on a non-empty queue only.
\<close>

definition pq_Pop :: "PriorityQueue \<Rightarrow> (Item \<times> PriorityQueue) option" where
  "pq_Pop q = (case items q of [] \<Rightarrow> None | w # ws \<Rightarrow> Some (w, q\<lparr>items := ws\<rparr>))"

text \<open>Modelled from the spec: whether an item is still in the queue.\<close>

definition pq_member :: "Item \<Rightarrow> PriorityQueue \<Rightarrow> bool" where
  "pq_member w q \<longleftrightarrow> Done w \<in> Done ` set (items q)"

text \<open>
  Modelled from the spec: \<^verbatim>\<open>heap.Remove\<close> at \<^verbatim>\<open>GetIndex(w)\<close> (the spec's removal of a
  known entry), a no-op when the item is not in the queue.
\<close>

definition pq_Remove :: "Item \<Rightarrow> PriorityQueue \<Rightarrow> PriorityQueue" where
  "pq_Remove w q = q\<lparr>items := filter (\<lambda>x. Done x \<noteq> Done w) (items q)\<rparr>"

text \<open>
  Modelled from the spec: \<^verbatim>\<open>Update\<close> (the spec's promotion). The item gets its new
  priority and moves to its place; it takes effect only if the item is still queued.
  The result is the item as its owner sees it afterwards, and the queue.
\<close>

definition pq_Update :: "Item \<Rightarrow> int \<Rightarrow> PriorityQueue \<Rightarrow> Item \<times> PriorityQueue" where
  "pq_Update w prio q =
     (if pq_member w q
      then (w\<lparr>Priority := prio\<rparr>,
            q\<lparr>items := pq_insert (w\<lparr>Priority := prio\<rparr>)
                          (filter (\<lambda>x. Done x \<noteq> Done w) (items q))\<rparr>)
      else (w, q))"

section \<open>The priority gate: \<^verbatim>\<open>PriorityLimiter\<close>\<close>

text \<open>
  \<^verbatim>\<open>PriorityValue\<close> is an integer type with four named values; \<^verbatim>\<open>Wait\<close> takes any
  value of the type. The struct \<^verbatim>\<open>PriorityLimiter\<close> has the fields of \<^verbatim>\<open>Limiter\<close> and
  \<^verbatim>\<open>dynamicPeriod\<close>; they carry the prefix \<open>p_\<close> here, and the functions of the two
  gates the names of their structs, since the two packages use the same names.
\<close>

definition Low :: int where "Low = 1"
definition Medium :: int where "Medium = 2"
definition MediumHigh :: int where "MediumHigh = 3"
definition High :: int where "High = 4"

record PriorityLimiter =
  p_count :: int
  p_limit :: int
  p_mu :: bool
  p_waitList :: PriorityQueue
  p_dynamicPeriod :: "int option"
  p_timeout :: "int option"

type_synonym prio = "PriorityLimiter \<times> chans"

definition WithDynamicPriority :: "int \<Rightarrow> PriorityLimiter \<Rightarrow> PriorityLimiter" where
  "WithDynamicPriority d p = p\<lparr>p_dynamicPeriod := Some d\<rparr>"

definition PriorityLimiter_WithTimeout :: "int \<Rightarrow> PriorityLimiter \<Rightarrow> PriorityLimiter" where
  "PriorityLimiter_WithTimeout t p = p\<lparr>p_timeout := Some t\<rparr>"

definition NewLimiter :: "int \<Rightarrow> (PriorityLimiter \<Rightarrow> PriorityLimiter) list \<Rightarrow> PriorityLimiter" where
  "NewLimiter lim options =
     fold (\<lambda>opt p. opt p) options
       \<lparr>p_count = 0, p_limit = lim, p_mu = False, p_waitList = pq_empty,
        p_dynamicPeriod = None, p_timeout = None\<rparr>"

definition PriorityLimiter_proceed ::
  "int \<Rightarrow> prio \<Rightarrow> status \<times> (bool \<times> Item option) \<times> prio" where
  "PriorityLimiter_proceed priority s =
     (case s of (p, chs) \<Rightarrow>
        if p_mu p then (Blocked, (False, None), s)
        else if p_count p < p_limit p
        then (Returned, (True, None), (p\<lparr>p_count := wrap64 (p_count p + 1)\<rparr>, chs))
        else (case make_chan chs of (ch, chs') \<Rightarrow>
               (case pq_Push ch priority (p_waitList p) of (w, q) \<Rightarrow>
                  (Returned, (False, Some w), (p\<lparr>p_waitList := q\<rparr>, chs')))))"

text \<open>\<^verbatim>\<open>removeWaiter\<close> unlocks at its end, not by \<^verbatim>\<open>defer\<close>.\<close>

definition PriorityLimiter_removeWaiter :: "Item \<Rightarrow> prio \<Rightarrow> status \<times> prio" where
  "PriorityLimiter_removeWaiter w s =
     (case s of (p, chs) \<Rightarrow>
        if p_mu p then (Blocked, s)
        else
          (let p1 = p\<lparr>p_waitList := pq_Remove w (p_waitList p)\<rparr>;
               p2 = p1\<lparr>p_count := wrap64 (p_count p1 + 1)\<rparr>
           in case chan_close (Done w) chs of
                None \<Rightarrow> (Panicked, (p2\<lparr>p_mu := True\<rparr>, chs))
              | Some chs' \<Rightarrow> (Returned, (p2, chs'))))"

text \<open>\<^verbatim>\<open>Finish\<close> unlocks by \<^verbatim>\<open>defer\<close>, as the FIFO gate's.\<close>

definition PriorityLimiter_Finish :: "prio \<Rightarrow> status \<times> prio" where
  "PriorityLimiter_Finish s =
     (case s of (p, chs) \<Rightarrow>
        if p_mu p then (Blocked, s)
        else
          (let p1 = p\<lparr>p_count := wrap64 (p_count p - 1)\<rparr> in
           case pq_Pop (p_waitList p1) of
             None \<Rightarrow> (Returned, (p1, chs))
           | Some (it, q) \<Rightarrow>
               (let p2 = p1\<lparr>p_waitList := q\<rparr> in
                case chan_send (Done it) chs of
                  (Returned, chs1) \<Rightarrow>
                    (case chan_close (Done it) chs1 of
                       None \<Rightarrow> (Panicked, (p2, chs1))
                     | Some chs2 \<Rightarrow> (Returned, (p2, chs2)))
                | (Panicked, chs1) \<Rightarrow> (Panicked, (p2, chs1))
                | (Blocked, chs1) \<Rightarrow> (Blocked, (p2\<lparr>p_mu := True\<rparr>, chs1)))))"

definition PriorityLimiter_waitListSize :: "prio \<Rightarrow> status \<times> nat" where
  "PriorityLimiter_waitListSize s =
     (if p_mu (fst s) then (Blocked, 0) else (Returned, pq_Len (p_waitList (fst s))))"

text \<open>
  \<^verbatim>\<open>time.NewTicker(time.Duration(period) * time.Millisecond)\<close> panics when the duration,
  in nanoseconds and wrapped to 64 bits, is not positive. Both aging loops make their
  ticker before they enter the \<^verbatim>\<open>select\<close>; \<open>ticker_made\<close> says that the period is
  set and the ticker could be made. Timers take any duration.
\<close>

definition NewTicker_panics :: "int \<Rightarrow> bool" where
  "NewTicker_panics period \<longleftrightarrow> wrap64 (period * 1000000) \<le> 0"

definition ticker_made :: "int option \<Rightarrow> bool" where
  "ticker_made d = (case d of None \<Rightarrow> False | Some period \<Rightarrow> \<not> NewTicker_panics period)"

text \<open>
  \<^verbatim>\<open>Wait\<close>, as for the FIFO gate. \<open>PriorityLimiter_Wait_begin\<close> is the call of
  \<^verbatim>\<open>proceed\<close> and what a queued caller does before its first \<^verbatim>\<open>select\<close>: with an
  aging period it makes the ticker, which may panic; then it parks. The other functions
  are the bodies of the cases of the \<^verbatim>\<open>select\<close>, run after the caller has left the
  \<^verbatim>\<open>select\<close> (\<open>unpark\<close>); \<open>PriorityLimiter_Wait_select\<close> is the two steps in one. The
  two aging loops go round again after a tick (\<open>Again\<close>, with the item as promoted: the
  caller is back in the \<^verbatim>\<open>select\<close>) and otherwise leave \<^verbatim>\<open>Wait\<close>. A loop whose
  ticker could not be made, or whose period or timeout is \<^verbatim>\<open>nil\<close>, has panicked
  before any \<^verbatim>\<open>select\<close>. \<open>ctx_done\<close> says whether the context is already cancelled
  when the ticker case runs: \<^verbatim>\<open>dynamicPriorityAndTimeout\<close> polls it in its inner
  \<^verbatim>\<open>select\<close>, \<^verbatim>\<open>handleDynamicPriority\<close> does not look at it.
\<close>

datatype continuation = Leave | Again Item

definition PriorityLimiter_Wait_begin ::
  "int \<Rightarrow> prio \<Rightarrow> status \<times> (bool \<times> Item option) \<times> prio" where
  "PriorityLimiter_Wait_begin priority s =
     (case PriorityLimiter_proceed priority s of
        (Returned, (False, Some w), (p, chs)) \<Rightarrow>
          (if p_dynamicPeriod p \<noteq> None \<and> \<not> ticker_made (p_dynamicPeriod p)
           then (Panicked, (False, Some w), (p, chs))
           else (Returned, (False, Some w), (p, park (Done w) chs)))
      | r \<Rightarrow> r)"

text \<open>The promotion both aging loops make inside the lock.\<close>

definition promote :: "Item \<Rightarrow> PriorityLimiter \<Rightarrow> Item \<times> PriorityLimiter" where
  "promote w p =
     (if Priority w < High
      then (case pq_Update w (wrap64 (Priority w + 1)) (p_waitList p) of
              (w', q) \<Rightarrow> (w', p\<lparr>p_waitList := q\<rparr>))
      else (w, p))"

definition tick :: "Item \<Rightarrow> prio \<Rightarrow> (continuation \<times> status \<times> prio) option" where
  "tick w s =
     (case s of (p, chs) \<Rightarrow>
        if p_mu p then Some (Leave, Blocked, s)
        else (case promote w p of (w', p') \<Rightarrow> Some (Again w', Returned, (p', park (Done w) chs))))"

definition leave :: "status \<times> prio \<Rightarrow> (continuation \<times> status \<times> prio) option" where
  "leave r = Some (Leave, r)"

definition dynamicPriorityAndTimeout ::
  "select_case \<Rightarrow> bool \<Rightarrow> Item \<Rightarrow> prio \<Rightarrow> (continuation \<times> status \<times> prio) option" where
  "dynamicPriorityAndTimeout c ctx_done w s =
     (if \<not> ticker_made (p_dynamicPeriod (fst s)) \<or> p_timeout (fst s) = None
      then leave (Panicked, s)
      else
        (case c of
           RecvDone \<Rightarrow> leave (Returned, s)
         | CtxDone \<Rightarrow> leave (PriorityLimiter_removeWaiter w s)
         | TimerFired \<Rightarrow> leave (PriorityLimiter_removeWaiter w s)
         | TickerFired \<Rightarrow>
             if ctx_done then leave (PriorityLimiter_removeWaiter w s) else tick w s))"

definition handleDynamicPriority ::
  "select_case \<Rightarrow> bool \<Rightarrow> Item \<Rightarrow> prio \<Rightarrow> (continuation \<times> status \<times> prio) option" where
  "handleDynamicPriority c ctx_done w s =
     (if \<not> ticker_made (p_dynamicPeriod (fst s)) then leave (Panicked, s)
      else
        (case c of
           RecvDone \<Rightarrow> leave (Returned, s)
         | TickerFired \<Rightarrow> tick w s
         | CtxDone \<Rightarrow> leave (PriorityLimiter_removeWaiter w s)
         | TimerFired \<Rightarrow> None))"

definition handleTimeout ::
  "select_case \<Rightarrow> Item \<Rightarrow> prio \<Rightarrow> (continuation \<times> status \<times> prio) option" where
  "handleTimeout c w s =
     (if p_timeout (fst s) = None then leave (Panicked, s)
      else
        (case c of
           RecvDone \<Rightarrow> leave (Returned, s)
         | TimerFired \<Rightarrow> leave (PriorityLimiter_removeWaiter w s)
         | CtxDone \<Rightarrow> leave (PriorityLimiter_removeWaiter w s)
         | TickerFired \<Rightarrow> None))"

definition PriorityLimiter_Wait_case ::
  "select_case \<Rightarrow> bool \<Rightarrow> Item \<Rightarrow> prio \<Rightarrow> (continuation \<times> status \<times> prio) option" where
  "PriorityLimiter_Wait_case c ctx_done w s =
     (if p_dynamicPeriod (fst s) = None \<and> p_timeout (fst s) = None then
        (case c of
           RecvDone \<Rightarrow> leave (Returned, s)
         | CtxDone \<Rightarrow> leave (PriorityLimiter_removeWaiter w s)
         | TimerFired \<Rightarrow> None
         | TickerFired \<Rightarrow> None)
      else if p_dynamicPeriod (fst s) \<noteq> None \<and> p_timeout (fst s) \<noteq> None then
        dynamicPriorityAndTimeout c ctx_done w s
      else if p_timeout (fst s) \<noteq> None then handleTimeout c w s
      else handleDynamicPriority c ctx_done w s)"

definition PriorityLimiter_Wait_select ::
  "select_case \<Rightarrow> bool \<Rightarrow> Item \<Rightarrow> prio \<Rightarrow> (continuation \<times> status \<times> prio) option" where
  "PriorityLimiter_Wait_select c ctx_done w s =
     (case s of (p, chs) \<Rightarrow> PriorityLimiter_Wait_case c ctx_done w (p, unpark (Done w) chs))"

subsection \<open>Runs of acquire and release calls on the priority gate\<close>

datatype pop = PAcquire int | PRelease

definition PriorityLimiter_step :: "pop \<Rightarrow> prio \<Rightarrow> status \<times> Item admission \<times> prio" where
  "PriorityLimiter_step a s =
     (case a of
        PAcquire priority \<Rightarrow>
          (case PriorityLimiter_Wait_begin priority s of
             (st, (False, Some w), s') \<Rightarrow> (st, Queued w, s')
           | (st, r, s') \<Rightarrow> (st, FastPath, s'))
      | PRelease \<Rightarrow>
          (case PriorityLimiter_Finish s of (st, s') \<Rightarrow> (st, woken (snd s) (snd s'), s')))"

fun PriorityLimiter_run :: "pop list \<Rightarrow> prio \<Rightarrow> status \<times> Item admission list \<times> prio" where
  "PriorityLimiter_run [] s = (Returned, [], s)"
| "PriorityLimiter_run (a # as) s =
     (case PriorityLimiter_step a s of
        (Returned, adm, s') \<Rightarrow>
          (case PriorityLimiter_run as s' of (st, log, s'') \<Rightarrow> (st, adm # log, s''))
      | (st, adm, s') \<Rightarrow> (st, [], s'))"

text \<open>
  The channels of the callers that the releases of a run woke, in the order in which
  they were woken.
\<close>

fun handed :: "'w admission list \<Rightarrow> nat list" where
  "handed [] = []"
| "handed (HandOff c # log) = c # handed log"
| "handed (a # log) = handed log"

text \<open>The entries that a run queued, in the order of their arrival.\<close>

fun queued :: "'w admission list \<Rightarrow> 'w list" where
  "queued [] = []"
| "queued (Queued w # log) = w # queued log"
| "queued (a # log) = queued log"

text \<open>A call and its entry in the log: a queued caller's item carries the priority it asked for.\<close>

fun matches :: "pop \<Rightarrow> Item admission \<Rightarrow> bool" where
  "matches (PAcquire priority) (Queued w) = (Priority w = priority)"
| "matches (PAcquire priority) FastPath = True"
| "matches PRelease (HandOff c) = True"
| "matches PRelease NoOne = True"
| "matches a adm = False"

text \<open>
  A log admits in the order of the queue, given the entries \<open>waiting\<close> before it: a
  release wakes nobody only when nobody waits, and otherwise it wakes one waiting
  caller, whose entry stands before every other waiting entry, higher in priority or
  equal in priority and earlier in arrival.
\<close>

fun ordered :: "Item list \<Rightarrow> Item admission list \<Rightarrow> bool" where
  "ordered waiting [] = True"
| "ordered waiting (FastPath # log) = ordered waiting log"
| "ordered waiting (Queued w # log) = ordered (waiting @ [w]) log"
| "ordered waiting (NoOne # log) = (waiting = [] \<and> ordered waiting log)"
| "ordered waiting (HandOff c # log) =
     (case filter (\<lambda>w. Done w = c) waiting of
        [w] \<Rightarrow> list_all (\<lambda>v. Done v = c \<or> before w v) waiting \<and>
               ordered (filter (\<lambda>v. Done v \<noteq> c) waiting) log
      | _ \<Rightarrow> False)"

subsection \<open>Invariants of the wait structures\<close>

text \<open>
  The queue is in order, best entry first, and every entry arrived before the next
  arrival number.
\<close>

definition pq_sorted :: "PriorityQueue \<Rightarrow> bool" where
  "pq_sorted q \<longleftrightarrow>
     sorted_wrt before (items q) \<and> (\<forall>w \<in> set (items q). sequence w < arrivals q)"

text \<open>
  Every queued caller waits for its grant: the entries have channels of their own, each
  made, open, and with its receiver parked on it. This is the state of the channels as
  long as no caller is cancelled or timed out.
\<close>

definition all_parked :: "nat list \<Rightarrow> chans \<Rightarrow> bool" where
  "all_parked cs chs \<longleftrightarrow>
     distinct cs \<and> (\<forall>c \<in> set cs. c < length chs \<and> \<not> closed (chs ! c) \<and> parked (chs ! c))"

section \<open>Wrapping, and the channels a call closes\<close>

lemma wrap64_id: "int64 x \<Longrightarrow> wrap64 x = x"
  by (simp add: wrap64_def int64_def)

lemma int64_wrap64: "int64 (wrap64 x)"
  by (simp add: wrap64_def int64_def)

lemma wrap64_diff_wrap64: "wrap64 (wrap64 x - y) = wrap64 (x - y)"
  by (simp add: wrap64_def algebra_simps mod_diff_left_eq mod_add_left_eq)

lemma filter_upt_only:
  "c < n \<Longrightarrow> \<forall>k < n. P k \<longleftrightarrow> k = c \<Longrightarrow> filter P [0 ..< n] = [c]"
proof (induction n)
  case 0
  then show ?case by simp
next
  case (Suc n)
  show ?case
  proof (cases "c = n")
    case True
    with Suc.prems(2) have "\<forall>k \<in> set [0 ..< n]. \<not> P k" by auto
    then have "filter P [0 ..< n] = []" by (simp only: filter_False)
    with True Suc.prems(2) show ?thesis by simp
  next
    case False
    with Suc.prems have "c < n" "\<forall>k < n. P k \<longleftrightarrow> k = c" "\<not> P n" by auto
    with Suc.IH show ?thesis by simp
  qed
qed

lemma fired_same: "fired chs chs = []"
  by (simp add: fired_def)

lemma fired_close:
  "c < length chs \<Longrightarrow> \<not> closed (chs ! c) \<Longrightarrow>
     fired chs (chs[c := \<lparr>closed = True, parked = False\<rparr>]) = [c]"
  unfolding fired_def
  by (rule filter_upt_only) (auto simp: nth_list_update)

lemma woken_same: "woken chs chs = NoOne"
  by (simp add: woken_def fired_same)

lemma woken_close:
  "c < length chs \<Longrightarrow> \<not> closed (chs ! c) \<Longrightarrow>
     woken chs (chs[c := \<lparr>closed = True, parked = False\<rparr>]) = HandOff c"
  by (simp add: woken_def fired_close)

section \<open>The order of the priority queue\<close>

lemma before_trans: "before a b \<Longrightarrow> before b c \<Longrightarrow> before a c"
  by (auto simp: before_def)

lemma before_total: "sequence a \<noteq> sequence b \<Longrightarrow> \<not> before a b \<Longrightarrow> before b a"
  by (auto simp: before_def)

lemma set_pq_insert: "set (pq_insert x ws) = insert x (set ws)"
  by (induction ws) auto

lemma length_pq_insert: "length (pq_insert x ws) = Suc (length ws)"
  by (induction ws) auto

lemma sorted_pq_insert:
  "sorted_wrt before ws \<Longrightarrow> \<forall>w \<in> set ws. sequence w \<noteq> sequence x \<Longrightarrow>
     sorted_wrt before (pq_insert x ws)"
proof (induction ws)
  case Nil
  then show ?case by simp
next
  case (Cons y ys)
  show ?case
  proof (cases "before x y")
    case True
    with Cons.prems show ?thesis by (auto intro: before_trans)
  next
    case False
    with Cons.prems have "before y x" by (auto intro: before_total)
    with False Cons show ?thesis by (auto simp: set_pq_insert)
  qed
qed

lemma distinct_pq_insert:
  "distinct (map Done (pq_insert x ws)) \<longleftrightarrow> Done x \<notin> Done ` set ws \<and> distinct (map Done ws)"
  by (induction ws) (auto simp: set_pq_insert)

lemma pq_sorted_Push:
  assumes "pq_sorted q" and "pq_Push ch prio q = (w, q')"
  shows "pq_sorted q'"
proof -
  have w: "w = \<lparr>Done = ch, Priority = prio, sequence = arrivals q\<rparr>"
    and q': "items q' = pq_insert w (items q)" "arrivals q' = Suc (arrivals q)"
    using assms(2) by (auto simp: pq_Push_def Let_def)
  have old: "\<forall>x \<in> set (items q). sequence x < arrivals q"
    using assms(1) by (simp add: pq_sorted_def)
  then have "\<forall>x \<in> set (items q). sequence x \<noteq> sequence w"
    using w by auto
  then have "sorted_wrt before (items q')"
    using assms(1) q'(1) by (simp add: pq_sorted_def sorted_pq_insert)
  moreover have "\<forall>x \<in> set (items q'). sequence x < arrivals q'"
    using old w q' by (auto simp: set_pq_insert less_Suc_eq)
  ultimately show ?thesis by (simp add: pq_sorted_def)
qed

lemma pq_sorted_Pop:
  "pq_sorted q \<Longrightarrow> pq_Pop q = Some (w, q') \<Longrightarrow> pq_sorted q' \<and> (\<forall>x \<in> set (items q'). before w x)"
  by (auto simp: pq_sorted_def pq_Pop_def split: list.splits)

lemma pq_sorted_Remove: "pq_sorted q \<Longrightarrow> pq_sorted (pq_Remove w q)"
  by (auto simp: pq_sorted_def pq_Remove_def sorted_wrt_filter)

section \<open>What a release does to the gate\<close>

lemma fire_parked:
  "c < length chs \<Longrightarrow> \<not> closed (chs ! c) \<Longrightarrow> parked (chs ! c) \<Longrightarrow>
     chan_send c chs = (Returned, chs[c := (chs ! c)\<lparr>parked := False\<rparr>]) \<and>
     chan_close c (chs[c := (chs ! c)\<lparr>parked := False\<rparr>]) =
       Some (chs[c := \<lparr>closed = True, parked = False\<rparr>])"
  by (simp add: chan_send_def chan_close_def)

lemma Limiter_Finish_count:
  "\<not> mu l \<Longrightarrow> Limiter_Finish (l, chs) = (st, (l', chs')) \<Longrightarrow>
     count l' = wrap64 (count l - 1) \<and> limit l' = limit l \<and> timeout l' = timeout l \<and>
     waitList l' = drop 1 (waitList l)"
  by (auto simp: Limiter_Finish_def Let_def
      split: list.splits prod.splits status.splits option.splits)

lemma Limiter_Finish_empty:
  "\<not> mu l \<Longrightarrow> waitList l = [] \<Longrightarrow>
     Limiter_Finish (l, chs) = (Returned, (l\<lparr>count := wrap64 (count l - 1)\<rparr>, chs))"
  by (simp add: Limiter_Finish_def)

lemma Limiter_Finish_fires:
  "\<not> mu l \<Longrightarrow> waitList l = first # rest \<Longrightarrow> all_parked [first] chs \<Longrightarrow>
     Limiter_Finish (l, chs) =
       (Returned, (l\<lparr>count := wrap64 (count l - 1), waitList := rest\<rparr>,
                   chs[first := \<lparr>closed = True, parked = False\<rparr>]))"
  using fire_parked [of first chs]
  by (simp add: Limiter_Finish_def all_parked_def)

lemma Limiter_Finish_blocks:
  "\<not> mu l \<Longrightarrow> waitList l = first # rest \<Longrightarrow> first < length chs \<Longrightarrow>
   \<not> closed (chs ! first) \<Longrightarrow> \<not> parked (chs ! first) \<Longrightarrow>
     Limiter_Finish (l, chs) =
       (Blocked, (l\<lparr>count := wrap64 (count l - 1), waitList := rest, mu := True\<rparr>, chs))"
  by (simp add: Limiter_Finish_def chan_send_def)

lemma PriorityLimiter_Finish_count:
  "\<not> p_mu p \<Longrightarrow> PriorityLimiter_Finish (p, chs) = (st, (p', chs')) \<Longrightarrow>
     p_count p' = wrap64 (p_count p - 1) \<and> p_limit p' = p_limit p \<and>
     items (p_waitList p') = drop 1 (items (p_waitList p)) \<and>
     arrivals (p_waitList p') = arrivals (p_waitList p)"
  by (auto simp: PriorityLimiter_Finish_def pq_Pop_def Let_def
      split: list.splits prod.splits status.splits option.splits)

lemma PriorityLimiter_Finish_empty:
  "\<not> p_mu p \<Longrightarrow> items (p_waitList p) = [] \<Longrightarrow>
     PriorityLimiter_Finish (p, chs) =
       (Returned, (p\<lparr>p_count := wrap64 (p_count p - 1)\<rparr>, chs))"
  by (simp add: PriorityLimiter_Finish_def pq_Pop_def)

lemma PriorityLimiter_Finish_fires:
  "\<not> p_mu p \<Longrightarrow> items (p_waitList p) = it # rest \<Longrightarrow> all_parked [Done it] chs \<Longrightarrow>
     PriorityLimiter_Finish (p, chs) =
       (Returned, (p\<lparr>p_count := wrap64 (p_count p - 1),
                     p_waitList := (p_waitList p)\<lparr>items := rest\<rparr>\<rparr>,
                   chs[Done it := \<lparr>closed = True, parked = False\<rparr>]))"
  using fire_parked [of "Done it" chs]
  by (simp add: PriorityLimiter_Finish_def pq_Pop_def all_parked_def)

lemma PriorityLimiter_Finish_blocks:
  "\<not> p_mu p \<Longrightarrow> items (p_waitList p) = it # rest \<Longrightarrow> Done it < length chs \<Longrightarrow>
   \<not> closed (chs ! Done it) \<Longrightarrow> \<not> parked (chs ! Done it) \<Longrightarrow>
     PriorityLimiter_Finish (p, chs) =
       (Blocked, (p\<lparr>p_count := wrap64 (p_count p - 1),
                    p_waitList := (p_waitList p)\<lparr>items := rest\<rparr>, p_mu := True\<rparr>, chs))"
  by (simp add: PriorityLimiter_Finish_def pq_Pop_def chan_send_def)

section \<open>Runs on the priority gate\<close>

lemma all_parked_tail:
  "all_parked (c # cs) chs \<Longrightarrow> all_parked cs (chs[c := v])"
  by (auto simp: all_parked_def nth_list_update)

lemma all_parked_new:
  "all_parked cs chs \<Longrightarrow>
     all_parked (length chs # cs) (chs @ [\<lparr>closed = False, parked = True\<rparr>])"
  by (auto simp: all_parked_def nth_append)

lemma all_parked_perm:
  "all_parked cs chs \<Longrightarrow> distinct cs' \<Longrightarrow> set cs' = set cs \<Longrightarrow> all_parked cs' chs"
  by (auto simp: all_parked_def)

lemma PriorityLimiter_step_queues:
  assumes "\<not> p_mu p" and "\<not> p_count p < p_limit p" and "p_dynamicPeriod p = None"
  shows "PriorityLimiter_step (PAcquire pr) (p, chs) =
     (Returned, Queued \<lparr>Done = length chs, Priority = pr, sequence = arrivals (p_waitList p)\<rparr>,
      (p\<lparr>p_waitList := snd (pq_Push (length chs) pr (p_waitList p))\<rparr>,
       chs @ [\<lparr>closed = False, parked = True\<rparr>]))"
  using assms
  by (simp add: PriorityLimiter_step_def PriorityLimiter_Wait_begin_def
      PriorityLimiter_proceed_def make_chan_def pq_Push_def Let_def park_def)

lemma PriorityLimiter_step_fast:
  assumes "\<not> p_mu p" and "p_count p < p_limit p"
  shows "PriorityLimiter_step (PAcquire pr) (p, chs) =
     (Returned, FastPath, (p\<lparr>p_count := wrap64 (p_count p + 1)\<rparr>, chs))"
  using assms
  by (simp add: PriorityLimiter_step_def PriorityLimiter_Wait_begin_def
      PriorityLimiter_proceed_def)

lemma PriorityLimiter_step_nobody:
  assumes "\<not> p_mu p" and "items (p_waitList p) = []"
  shows "PriorityLimiter_step PRelease (p, chs) =
     (Returned, NoOne, (p\<lparr>p_count := wrap64 (p_count p - 1)\<rparr>, chs))"
  using assms
  by (simp add: PriorityLimiter_step_def PriorityLimiter_Finish_empty woken_same)

lemma PriorityLimiter_step_release:
  assumes "\<not> p_mu p" and "items (p_waitList p) = it # rest"
    and "all_parked (map Done (it # rest)) chs"
  shows "PriorityLimiter_step PRelease (p, chs) =
     (Returned, HandOff (Done it),
      (p\<lparr>p_count := wrap64 (p_count p - 1), p_waitList := (p_waitList p)\<lparr>items := rest\<rparr>\<rparr>,
       chs[Done it := \<lparr>closed = True, parked = False\<rparr>]))"
proof -
  have ch: "Done it < length chs" "\<not> closed (chs ! Done it)" and one: "all_parked [Done it] chs"
    using assms(3) by (auto simp: all_parked_def)
  show ?thesis
    using PriorityLimiter_Finish_fires [OF assms(1,2) one] woken_close [OF ch]
    by (simp add: PriorityLimiter_step_def)
qed

lemma PriorityLimiter_run_append:
  "PriorityLimiter_run as s = (Returned, log, s') \<Longrightarrow>
     PriorityLimiter_run (as @ bs) s =
       (case PriorityLimiter_run bs s' of (st, log', s'') \<Rightarrow> (st, log @ log', s''))"
proof (induction as arbitrary: s log)
  case Nil
  then show ?case by (simp split: prod.splits)
next
  case (Cons a as)
  obtain st1 adm s1 where step: "PriorityLimiter_step a s = (st1, adm, s1)"
    by (cases "PriorityLimiter_step a s") auto
  show ?case
  proof (cases st1)
    case Returned
    obtain st2 log2 s2 where rest: "PriorityLimiter_run as s1 = (st2, log2, s2)"
      by (cases "PriorityLimiter_run as s1") auto
    with Cons.prems step Returned have "st2 = Returned" "log = adm # log2" "s2 = s'"
      by auto
    with Cons.IH [of s1 log2] rest step Returned show ?thesis
      by (auto split: prod.splits)
  next
    case Panicked
    with Cons.prems step show ?thesis by simp
  next
    case Blocked
    with Cons.prems step show ?thesis by simp
  qed
qed

lemma handed_append: "handed (xs @ ys) = handed xs @ handed ys"
  by (induction xs rule: handed.induct) auto

lemma queued_append: "queued (xs @ ys) = queued xs @ queued ys"
  by (induction xs rule: queued.induct) auto

lemma handed_HandOff: "handed (map HandOff cs) = cs"
  by (induction cs) auto

lemma queued_HandOff: "queued (map HandOff cs) = []"
  by (induction cs) auto

lemma filter_the_one:
  "distinct (map f xs) \<Longrightarrow> x \<in> set xs \<Longrightarrow> filter (\<lambda>y. f y = f x) xs = [x]"
proof (induction xs)
  case Nil
  then show ?case by simp
next
  case (Cons a xs)
  show ?case
  proof (cases "a = x")
    case True
    with Cons.prems(1) have "\<forall>y \<in> set xs. f y \<noteq> f x"
      by (auto simp: image_iff)
    then have "filter (\<lambda>y. f y = f x) xs = []" by (simp only: filter_False)
    with True show ?thesis by simp
  next
    case False
    with Cons.prems have "x \<in> set xs" "f a \<noteq> f x" by auto
    with Cons show ?thesis by simp
  qed
qed

text \<open>
  What holds between the calls of a run without cancellation or timeout: the mutex is
  free, the queue is in order, every queued caller waits on its channel, and the queue
  holds the waiting entries.
\<close>

lemma ordered_run:
  assumes "\<not> p_mu p" and "p_dynamicPeriod p = None"
    and "pq_sorted (p_waitList p)"
    and "all_parked (map Done (items (p_waitList p))) chs"
    and "set waiting = set (items (p_waitList p))" and "distinct (map Done waiting)"
    and "PriorityLimiter_run ops (p, chs) = (st, log, s')"
  shows "st = Returned \<and> list_all2 matches ops log \<and> ordered waiting log \<and>
         map sequence (queued log) =
           [arrivals (p_waitList p) ..< arrivals (p_waitList p) + length (queued log)]"
  using assms
proof (induction ops arbitrary: p chs waiting st log s')
  case Nil
  then show ?case by simp
next
  case (Cons a ops)
  let ?q = "p_waitList p"
  show ?case
  proof (cases a)
    case (PAcquire pr)
    show ?thesis
    proof (cases "p_count p < p_limit p")
      case True
      let ?p1 = "p\<lparr>p_count := wrap64 (p_count p + 1)\<rparr>"
      have step: "PriorityLimiter_step a (p, chs) = (Returned, FastPath, (?p1, chs))"
        using PAcquire PriorityLimiter_step_fast [OF Cons.prems(1) True] by simp
      obtain st2 log2 s2 where rest: "PriorityLimiter_run ops (?p1, chs) = (st2, log2, s2)"
        by (metis prod.collapse)
      with step Cons.prems(7) have res: "st = st2" "log = FastPath # log2"
        by simp_all
      have "st2 = Returned \<and> list_all2 matches ops log2 \<and> ordered waiting log2 \<and>
          map sequence (queued log2) =
            [arrivals (p_waitList ?p1) ..< arrivals (p_waitList ?p1) + length (queued log2)]"
        using Cons.prems(1-6) by (intro Cons.IH [OF _ _ _ _ _ _ rest]) simp_all
      with res PAcquire show ?thesis by simp
    next
      case False
      let ?w = "\<lparr>Done = length chs, Priority = pr, sequence = arrivals ?q\<rparr>"
      let ?q1 = "snd (pq_Push (length chs) pr ?q)"
      let ?p1 = "p\<lparr>p_waitList := ?q1\<rparr>"
      let ?chs1 = "chs @ [\<lparr>closed = False, parked = True\<rparr>]"
      have step: "PriorityLimiter_step a (p, chs) = (Returned, Queued ?w, (?p1, ?chs1))"
        using PAcquire PriorityLimiter_step_queues [OF Cons.prems(1) False Cons.prems(2)]
        by simp
      obtain st2 log2 s2 where rest: "PriorityLimiter_run ops (?p1, ?chs1) = (st2, log2, s2)"
        by (metis prod.collapse)
      with step Cons.prems(7) have res: "st = st2" "log = Queued ?w # log2"
        by simp_all
      have push: "pq_Push (length chs) pr ?q = (?w, ?q1)"
        by (simp add: pq_Push_def Let_def)
      have q1: "items ?q1 = pq_insert ?w (items ?q)" "arrivals ?q1 = Suc (arrivals ?q)"
        by (simp_all add: pq_Push_def Let_def)
      have sorted1: "pq_sorted (p_waitList ?p1)"
        using pq_sorted_Push [OF Cons.prems(3) push] by simp
      have fresh: "length chs \<notin> Done ` set (items ?q)"
        using Cons.prems(4) by (auto simp: all_parked_def)
      have dist1: "distinct (map Done (items ?q1))"
        using fresh Cons.prems(4) by (simp add: q1 distinct_pq_insert all_parked_def)
      have new: "all_parked (length chs # map Done (items ?q)) ?chs1"
        using Cons.prems(4) by (rule all_parked_new)
      have "set (map Done (items ?q1)) = set (length chs # map Done (items ?q))"
        by (simp add: q1 set_pq_insert)
      with new dist1 have "all_parked (map Done (items ?q1)) ?chs1"
        by (rule all_parked_perm)
      then have parked1: "all_parked (map Done (items (p_waitList ?p1))) ?chs1"
        by simp
      have waiting1: "set (waiting @ [?w]) = set (items (p_waitList ?p1))"
        using Cons.prems(5) by (simp add: q1 set_pq_insert)
      have distw: "distinct (map Done (waiting @ [?w]))"
        using Cons.prems(5,6) fresh by auto
      have "st2 = Returned \<and> list_all2 matches ops log2 \<and> ordered (waiting @ [?w]) log2 \<and>
          map sequence (queued log2) =
            [arrivals (p_waitList ?p1) ..< arrivals (p_waitList ?p1) + length (queued log2)]"
        using Cons.prems(1,2) sorted1 parked1 waiting1 distw
        by (intro Cons.IH [OF _ _ _ _ _ _ rest]) simp_all
      with res PAcquire show ?thesis by (simp add: q1 upt_rec)
    qed
  next
    case PRelease
    show ?thesis
    proof (cases "items ?q")
      case Nil
      let ?p1 = "p\<lparr>p_count := wrap64 (p_count p - 1)\<rparr>"
      have step: "PriorityLimiter_step a (p, chs) = (Returned, NoOne, (?p1, chs))"
        using PRelease PriorityLimiter_step_nobody [OF Cons.prems(1) Nil] by simp
      obtain st2 log2 s2 where rest: "PriorityLimiter_run ops (?p1, chs) = (st2, log2, s2)"
        by (metis prod.collapse)
      with step Cons.prems(7) have res: "st = st2" "log = NoOne # log2"
        by simp_all
      have nobody: "waiting = []"
        using Cons.prems(5) Nil by simp
      have "st2 = Returned \<and> list_all2 matches ops log2 \<and> ordered waiting log2 \<and>
          map sequence (queued log2) =
            [arrivals (p_waitList ?p1) ..< arrivals (p_waitList ?p1) + length (queued log2)]"
        using Cons.prems(1-6) by (intro Cons.IH [OF _ _ _ _ _ _ rest]) simp_all
      with res PRelease nobody show ?thesis by simp
    next
      case (Cons it rest)
      let ?c = "Done it"
      let ?p1 = "p\<lparr>p_count := wrap64 (p_count p - 1), p_waitList := ?q\<lparr>items := rest\<rparr>\<rparr>"
      let ?chs1 = "chs[?c := \<lparr>closed = True, parked = False\<rparr>]"
      let ?waiting1 = "filter (\<lambda>v. Done v \<noteq> ?c) waiting"
      have parked: "all_parked (map Done (it # rest)) chs"
        using Cons.prems(4) Cons by simp
      have step: "PriorityLimiter_step a (p, chs) = (Returned, HandOff ?c, (?p1, ?chs1))"
        using PRelease PriorityLimiter_step_release [OF Cons.prems(1) Cons parked] by simp
      obtain st2 log2 s2 where run2: "PriorityLimiter_run ops (?p1, ?chs1) = (st2, log2, s2)"
        by (metis prod.collapse)
      with step Cons.prems(7) have res: "st = st2" "log = HandOff ?c # log2"
        by simp_all
      have it: "it \<in> set waiting"
        using Cons.prems(5) Cons by simp
      have the_one: "filter (\<lambda>w. Done w = ?c) waiting = [it]"
        using Cons.prems(6) it by (rule filter_the_one)
      have "Done it \<notin> Done ` set rest"
        using parked by (simp add: all_parked_def)
      then have others: "\<forall>v \<in> set rest. Done v \<noteq> ?c"
        by (metis imageI)
      have best: "\<forall>v \<in> set rest. before it v"
        using Cons.prems(3) Cons by (simp add: pq_sorted_def)
      have "\<forall>v \<in> set waiting. Done v = ?c \<or> before it v"
        using Cons.prems(5) Cons best by auto
      then have all_best: "list_all (\<lambda>v. Done v = ?c \<or> before it v) waiting"
        by (simp add: list_all_iff)
      have sorted1: "pq_sorted (p_waitList ?p1)"
        using Cons.prems(3) Cons by (auto simp: pq_sorted_def)
      have parked1: "all_parked (map Done (items (p_waitList ?p1))) ?chs1"
        using all_parked_tail [of ?c "map Done rest" chs] parked by simp
      have waiting1: "set ?waiting1 = set (items (p_waitList ?p1))"
        using Cons.prems(5) Cons others by auto
      have distw: "distinct (map Done ?waiting1)"
        using Cons.prems(6) by (simp add: distinct_map_filter)
      have "st2 = Returned \<and> list_all2 matches ops log2 \<and> ordered ?waiting1 log2 \<and>
          map sequence (queued log2) =
            [arrivals (p_waitList ?p1) ..< arrivals (p_waitList ?p1) + length (queued log2)]"
        using Cons.prems(1,2) sorted1 parked1 waiting1 distw
        by (intro Cons.IH [OF _ _ _ _ _ _ run2]) simp_all
      with res PRelease the_one all_best show ?thesis by simp
    qed
  qed
qed

lemma drain:
  assumes "\<not> p_mu p" and "items (p_waitList p) = ws" and "all_parked (map Done ws) chs"
  shows "\<exists>p' chs'. PriorityLimiter_run (replicate (length ws) PRelease) (p, chs) =
           (Returned, map (HandOff \<circ> Done) ws, (p', chs')) \<and>
           items (p_waitList p') = [] \<and> length chs' = length chs \<and>
           (\<forall>c < length chs. closed (chs ! c) \<or> c \<in> Done ` set ws \<longrightarrow> closed (chs' ! c))"
  using assms
proof (induction ws arbitrary: p chs)
  case Nil
  then show ?case by simp
next
  case (Cons w ws)
  let ?p1 = "p\<lparr>p_count := wrap64 (p_count p - 1), p_waitList := (p_waitList p)\<lparr>items := ws\<rparr>\<rparr>"
  let ?chs1 = "chs[Done w := \<lparr>closed = True, parked = False\<rparr>]"
  have step: "PriorityLimiter_step PRelease (p, chs) = (Returned, HandOff (Done w), (?p1, ?chs1))"
    using Cons.prems by (simp add: PriorityLimiter_step_release)
  have w: "Done w < length chs"
    using Cons.prems(3) by (simp add: all_parked_def)
  have "all_parked (map Done ws) ?chs1"
    using Cons.prems(3) all_parked_tail [of "Done w" "map Done ws" chs] by simp
  with Cons.IH [of ?p1 ?chs1] Cons.prems(1) obtain p' chs' where
    run: "PriorityLimiter_run (replicate (length ws) PRelease) (?p1, ?chs1) =
       (Returned, map (HandOff \<circ> Done) ws, (p', chs'))"
    and empty: "items (p_waitList p') = []" and len: "length chs' = length ?chs1"
    and cl: "\<forall>c < length ?chs1. closed (?chs1 ! c) \<or> c \<in> Done ` set ws \<longrightarrow> closed (chs' ! c)"
    by auto
  have "\<forall>c < length chs. closed (chs ! c) \<or> c \<in> Done ` set (w # ws) \<longrightarrow> closed (chs' ! c)"
  proof (intro allI impI)
    fix c
    assume c: "c < length chs" and "closed (chs ! c) \<or> c \<in> Done ` set (w # ws)"
    then have "closed (?chs1 ! c) \<or> c \<in> Done ` set ws"
      using w by (cases "c = Done w") (auto simp: nth_list_update)
    with cl c show "closed (chs' ! c)" by auto
  qed
  with step run empty len show ?case by simp
qed

lemma enqueue:
  assumes "\<not> p_mu p" and "p_dynamicPeriod p = None"
    and "pq_sorted (p_waitList p)"
    and "all_parked (map Done (items (p_waitList p))) chs"
    and "\<not> p_count p < p_limit p"
  shows "\<exists>p' chs' log.
           PriorityLimiter_run (map PAcquire ps) (p, chs) = (Returned, log, (p', chs')) \<and>
           \<not> p_mu p' \<and> pq_sorted (p_waitList p') \<and>
           all_parked (map Done (items (p_waitList p'))) chs' \<and>
           set (items (p_waitList p')) = set (items (p_waitList p)) \<union> set (queued log) \<and>
           length (items (p_waitList p')) = length (items (p_waitList p)) + length ps \<and>
           length chs' = length chs + length ps \<and>
           handed log = [] \<and>
           map Priority (queued log) = ps \<and>
           map Done (queued log) = [length chs ..< length chs + length ps] \<and>
           map sequence (queued log) =
             [arrivals (p_waitList p) ..< arrivals (p_waitList p) + length ps]"
  using assms
proof (induction ps arbitrary: p chs)
  case Nil
  then show ?case by simp
next
  case (Cons pr ps)
  let ?q = "p_waitList p"
  let ?w = "\<lparr>Done = length chs, Priority = pr, sequence = arrivals ?q\<rparr>"
  let ?q1 = "snd (pq_Push (length chs) pr ?q)"
  let ?p1 = "p\<lparr>p_waitList := ?q1\<rparr>"
  let ?chs1 = "chs @ [\<lparr>closed = False, parked = True\<rparr>]"
  have step: "PriorityLimiter_step (PAcquire pr) (p, chs) = (Returned, Queued ?w, (?p1, ?chs1))"
    using Cons.prems(1,5,2) by (rule PriorityLimiter_step_queues)
  have push: "pq_Push (length chs) pr ?q = (?w, ?q1)"
    by (simp add: pq_Push_def Let_def)
  have q1: "items ?q1 = pq_insert ?w (items ?q)" "arrivals ?q1 = Suc (arrivals ?q)"
    by (simp_all add: pq_Push_def Let_def)
  have sorted1: "pq_sorted (p_waitList ?p1)"
    using pq_sorted_Push [OF Cons.prems(3) push] by simp
  have fresh: "length chs \<notin> Done ` set (items ?q)"
    using Cons.prems(4) by (auto simp: all_parked_def)
  have dist1: "distinct (map Done (items ?q1))"
    using fresh Cons.prems(4) by (simp add: q1 distinct_pq_insert all_parked_def)
  have new: "all_parked (length chs # map Done (items ?q)) ?chs1"
    using Cons.prems(4) by (rule all_parked_new)
  have "set (map Done (items ?q1)) = set (length chs # map Done (items ?q))"
    by (simp add: q1 set_pq_insert)
  with new dist1 have "all_parked (map Done (items ?q1)) ?chs1"
    by (rule all_parked_perm)
  then have parked1: "all_parked (map Done (items (p_waitList ?p1))) ?chs1"
    by simp
  have "\<not> p_mu ?p1" "p_dynamicPeriod ?p1 = None" "\<not> p_count ?p1 < p_limit ?p1"
    using Cons.prems(1,2,5) by simp_all
  from Cons.IH [OF this(1,2) sorted1 parked1 this(3)] obtain p' chs' log where
    run: "PriorityLimiter_run (map PAcquire ps) (?p1, ?chs1) = (Returned, log, (p', chs'))"
    and inv: "\<not> p_mu p'" "pq_sorted (p_waitList p')"
      "all_parked (map Done (items (p_waitList p'))) chs'"
    and elems: "set (items (p_waitList p')) = set (items (p_waitList ?p1)) \<union> set (queued log)"
      "length (items (p_waitList p')) = length (items (p_waitList ?p1)) + length ps"
      "length chs' = length ?chs1 + length ps"
    and log: "handed log = []" "map Priority (queued log) = ps"
      "map Done (queued log) = [length ?chs1 ..< length ?chs1 + length ps]"
      "map sequence (queued log) =
         [arrivals (p_waitList ?p1) ..< arrivals (p_waitList ?p1) + length ps]"
    by blast
  have "PriorityLimiter_run (map PAcquire (pr # ps)) (p, chs) =
          (Returned, Queued ?w # log, (p', chs'))"
    using step run by simp
  moreover have "set (items (p_waitList p')) = set (items ?q) \<union> set (queued (Queued ?w # log))"
    using elems(1) by (auto simp: q1 set_pq_insert)
  moreover have "length (items (p_waitList p')) = length (items ?q) + length (pr # ps)"
    using elems(2) by (simp add: q1 length_pq_insert)
  moreover have "length chs' = length chs + length (pr # ps)"
    using elems(3) by simp
  moreover have "map sequence (queued (Queued ?w # log)) =
      [arrivals ?q ..< arrivals ?q + length (pr # ps)]"
    using log(4) by (simp add: q1 upt_rec)
  moreover have "map Done (queued (Queued ?w # log)) =
      [length chs ..< length chs + length (pr # ps)]"
    using log(3) by (simp add: upt_rec)
  moreover have "handed (Queued ?w # log) = []" "map Priority (queued (Queued ?w # log)) = pr # ps"
    using log by simp_all
  ultimately show ?case
    using inv by auto
qed

lemma batch_order:
  assumes "PriorityLimiter_run
             (PAcquire p0 # map PAcquire ps @ replicate (length ps) PRelease)
             (NewLimiter 1 [], []) = (st, log, s)"
  shows "st = Returned \<and>
         map Priority (queued log) = ps \<and>
         map Done (queued log) = [0 ..< length ps] \<and>
         length (handed log) = length ps \<and>
         set (handed log) = {0 ..< length ps} \<and>
         sorted_wrt (\<lambda>i j. ps ! i > ps ! j \<or> (ps ! i = ps ! j \<and> i < j)) (handed log) \<and>
         length (snd s) = length ps \<and> list_all closed (snd s)"
proof -
  let ?p0 = "NewLimiter 1 []"
  let ?p1 = "?p0\<lparr>p_count := wrap64 (p_count ?p0 + 1)\<rparr>"
  let ?R = "\<lambda>i j. ps ! i > ps ! j \<or> (ps ! i = ps ! j \<and> i < j)"
  have first: "PriorityLimiter_step (PAcquire p0) (?p0, []) = (Returned, FastPath, (?p1, []))"
    by (rule PriorityLimiter_step_fast) (simp_all add: NewLimiter_def)
  have "\<not> p_mu ?p1" "p_dynamicPeriod ?p1 = None" "pq_sorted (p_waitList ?p1)"
    "all_parked (map Done (items (p_waitList ?p1))) []" "\<not> p_count ?p1 < p_limit ?p1"
    by (simp_all add: NewLimiter_def pq_empty_def pq_sorted_def all_parked_def wrap64_def)
  from enqueue [OF this, of ps] obtain p' chs' log1 where
    run1: "PriorityLimiter_run (map PAcquire ps) (?p1, []) = (Returned, log1, (p', chs'))"
    and inv: "\<not> p_mu p'" "pq_sorted (p_waitList p')"
      "all_parked (map Done (items (p_waitList p'))) chs'"
    and elems: "set (items (p_waitList p')) = set (items (p_waitList ?p1)) \<union> set (queued log1)"
      "length (items (p_waitList p')) = length (items (p_waitList ?p1)) + length ps"
      "length chs' = length ([] :: chans) + length ps"
    and log1: "handed log1 = []" "map Priority (queued log1) = ps"
      "map Done (queued log1) = [length ([] :: chans) ..< length ([] :: chans) + length ps]"
      "map sequence (queued log1) =
         [arrivals (p_waitList ?p1) ..< arrivals (p_waitList ?p1) + length ps]"
    by blast
  let ?ws = "items (p_waitList p')"
  have len: "length ?ws = length ps"
    using elems(2) by (simp add: NewLimiter_def pq_empty_def)
  from drain [OF inv(1) refl inv(3)] obtain p'' chs'' where
    run2: "PriorityLimiter_run (replicate (length ps) PRelease) (p', chs') =
             (Returned, map (HandOff \<circ> Done) ?ws, (p'', chs''))"
    and fin: "length chs'' = length chs'"
      "\<forall>c < length chs'. closed (chs' ! c) \<or> c \<in> Done ` set ?ws \<longrightarrow> closed (chs'' ! c)"
    using len by auto
  have "PriorityLimiter_run (map PAcquire ps @ replicate (length ps) PRelease) (?p1, []) =
          (Returned, log1 @ map (HandOff \<circ> Done) ?ws, (p'', chs''))"
    using PriorityLimiter_run_append [OF run1] run2 by simp
  with first assms have res: "st = Returned"
    "log = FastPath # log1 @ map (HandOff \<circ> Done) ?ws" "s = (p'', chs'')"
    by simp_all
  have handed: "handed log = map Done ?ws"
    using res(2) log1(1) handed_HandOff [of "map Done ?ws"]
    by (simp add: handed_append)
  have queued: "queued log = queued log1"
    using res(2) queued_HandOff [of "map Done ?ws"] by (simp add: queued_append)
  have ws: "set ?ws = set (queued log1)"
    using elems(1) by (simp add: NewLimiter_def pq_empty_def)
  have dones: "map Done (queued log1) = [0 ..< length ps]"
    and seqs: "map sequence (queued log1) = [0 ..< length ps]"
    using log1(3,4) by (simp_all add: NewLimiter_def pq_empty_def)
  have lenq: "length (queued log1) = length ps"
    using log1(2) by (metis length_map)
  have item: "Done w < length ps \<and> sequence w = Done w \<and> Priority w = ps ! Done w"
    if "w \<in> set ?ws" for w
  proof -
    from that ws obtain k where k: "k < length ps" "w = queued log1 ! k"
      using lenq by (auto simp: in_set_conv_nth)
    have "Done w = map Done (queued log1) ! k" "sequence w = map sequence (queued log1) ! k"
      "Priority w = map Priority (queued log1) ! k"
      using k lenq by simp_all
    with k dones seqs log1(2) show ?thesis by simp
  qed
  have "Done ` set ?ws = set (map Done (queued log1))"
    using ws by simp
  then have image: "Done ` set ?ws = {0 ..< length ps}"
    using dones by simp
  have "sorted_wrt before ?ws"
    using inv(2) by (simp add: pq_sorted_def)
  then have "sorted_wrt (\<lambda>v w. ?R (Done v) (Done w)) ?ws"
    by (rule sorted_wrt_mono_rel [rotated]) (use item in \<open>auto simp: before_def\<close>)
  then have sorted: "sorted_wrt ?R (handed log)"
    using handed by (simp add: sorted_wrt_map)
  have "length chs'' = length ps"
    using fin(1) elems(3) by simp
  moreover have "\<forall>c < length chs''. closed (chs'' ! c)"
    using fin elems(3) image by auto
  ultimately have chans: "length (snd s) = length ps" "list_all closed (snd s)"
    using res(3) by (simp_all add: list_all_length)
  show ?thesis
    using res(1) queued log1(2) dones handed len image sorted chans by simp
qed

text \<open>
  Claim C6. On a priority gate with limit 1 and neither cancellation nor timeout, every
  run of acquires and releases goes through, each call returning, and admits in the
  order of the queue. A caller that is queued gets an item with the priority it asked
  for and with the next arrival number. A release wakes nobody only when nobody waits;
  otherwise it wakes, by closing that caller's channel, one waiting caller: the one
  whose entry is of the highest priority among those waiting and, among those of that
  priority, arrived first (\<open>ordered\<close>). In particular, when a first caller holds the
  slot, callers with the priorities \<open>ps\<close> are queued in that order and as many
  releases follow, the callers are woken in the one order that puts each before every
  caller of strictly lower priority and before every later arrival of equal priority;
  all of them are woken, their channels closed.
\<close>

theorem priority_admission_order:
  assumes "PriorityLimiter_run ops (NewLimiter 1 [], []) = (st, log, s)"
  shows "st = Returned \<and> list_all2 matches ops log \<and>
         map sequence (queued log) = [0 ..< length (queued log)] \<and>
         ordered [] log \<and>
         (\<forall>p0 ps. ops = PAcquire p0 # map PAcquire ps @ replicate (length ps) PRelease \<longrightarrow>
            map Priority (queued log) = ps \<and>
            map Done (queued log) = [0 ..< length ps] \<and>
            length (handed log) = length ps \<and>
            set (handed log) = {0 ..< length ps} \<and>
            sorted_wrt (\<lambda>i j. ps ! i > ps ! j \<or> (ps ! i = ps ! j \<and> i < j)) (handed log) \<and>
            length (snd s) = length ps \<and> list_all closed (snd s))"
proof -
  let ?p0 = "NewLimiter 1 []"
  obtain chs' p' where s: "s = (p', chs')" by (metis prod.collapse)
  have "\<not> p_mu ?p0" "p_dynamicPeriod ?p0 = None" "pq_sorted (p_waitList ?p0)"
    "all_parked (map Done (items (p_waitList ?p0))) []"
    "set [] = set (items (p_waitList ?p0))" "distinct (map Done [])"
    by (simp_all add: NewLimiter_def pq_empty_def pq_sorted_def all_parked_def)
  from ordered_run [OF this assms]
  have "st = Returned" "list_all2 matches ops log" "ordered [] log"
    "map sequence (queued log) = [0 ..< length (queued log)]"
    by (simp_all add: NewLimiter_def pq_empty_def)
  moreover have "\<forall>p0 ps. ops = PAcquire p0 # map PAcquire ps @ replicate (length ps) PRelease \<longrightarrow>
      map Priority (queued log) = ps \<and>
      map Done (queued log) = [0 ..< length ps] \<and>
      length (handed log) = length ps \<and>
      set (handed log) = {0 ..< length ps} \<and>
      sorted_wrt (\<lambda>i j. ps ! i > ps ! j \<or> (ps ! i = ps ! j \<and> i < j)) (handed log) \<and>
      length (snd s) = length ps \<and> list_all closed (snd s)"
    using batch_order assms by blast
  ultimately show ?thesis by blast
qed

text \<open>
  Callers queued as Low, Medium, High in that order of arrival are woken High, Medium,
  Low: the channels 2, 1, 0.
\<close>

theorem priority_admission_order_witness:
  "fst (PriorityLimiter_run
      [PAcquire High, PAcquire Low, PAcquire Medium, PAcquire High, PRelease, PRelease, PRelease]
      (NewLimiter 1 [], [])) = Returned \<and>
   ordered [] (fst (snd (PriorityLimiter_run
      [PAcquire High, PAcquire Low, PAcquire Medium, PAcquire High, PRelease, PRelease, PRelease]
      (NewLimiter 1 [], [])))) \<and>
   map Priority (queued (fst (snd (PriorityLimiter_run
      [PAcquire High, PAcquire Low, PAcquire Medium, PAcquire High, PRelease, PRelease, PRelease]
      (NewLimiter 1 [], []))))) = [Low, Medium, High] \<and>
   handed (fst (snd (PriorityLimiter_run
      [PAcquire High, PAcquire Low, PAcquire Medium, PAcquire High, PRelease, PRelease, PRelease]
      (NewLimiter 1 [], [])))) = [2, 1, 0] \<and>
   list_all closed (snd (snd (snd (PriorityLimiter_run
      [PAcquire High, PAcquire Low, PAcquire Medium, PAcquire High, PRelease, PRelease, PRelease]
      (NewLimiter 1 [], [])))))"
proof -
  let ?ops = "[PAcquire High, PAcquire Low, PAcquire Medium, PAcquire High,
               PRelease, PRelease, PRelease]"
  let ?r = "PriorityLimiter_run ?ops (NewLimiter 1 [], [])"
  have shape: "?ops = PAcquire High # map PAcquire [Low, Medium, High] @
      replicate (length [Low, Medium, High]) PRelease"
    by simp
  have "?r = (fst ?r, fst (snd ?r), snd (snd ?r))"
    by simp
  from priority_admission_order [OF this] shape
  have "fst ?r = Returned" "ordered [] (fst (snd ?r))"
    "map Priority (queued (fst (snd ?r))) = [Low, Medium, High]"
    "list_all closed (snd (snd (snd ?r)))"
    by blast+
  moreover have "handed (fst (snd ?r)) = [2, 1, 0]"
    by code_simp
  ultimately show ?thesis by simp
qed

section \<open>The hand-off\<close>

text \<open>
  Claim C7 says that in every state \<^verbatim>\<open>Finish\<close> takes one from the count, pops one
  entry and fires its signal. Not in every state. On the FIFO gate with a timeout
  configured, a queued caller that was cancelled has returned and its entry is still
  in the wait list: \<^verbatim>\<open>Finish\<close> lowers the count and pops the entry, and then blocks
  in the send; no channel is closed. And at the least integer the count does not go
  down by one: it wraps to the greatest.
\<close>

theorem release_pops_without_signal:
  "(case Limiter_run [Acquire, Acquire] (New 1 [WithTimeout 5], []) of
      (st, log, s) \<Rightarrow>
        (case Limiter_Wait_select CtxDone 0 s of
           None \<Rightarrow> False
         | Some (st1, (l1, chs1)) \<Rightarrow>
             st1 = Returned \<and> count l1 = 1 \<and> waitList l1 = [0] \<and>
             (case Limiter_Finish (l1, chs1) of
                (st2, (l2, chs2)) \<Rightarrow>
                  st2 = Blocked \<and> count l2 = 0 \<and> waitList l2 = [] \<and>
                  fired chs1 chs2 = [] \<and> \<not> closed (chs2 ! 0)))) \<and>
   Limiter_Finish
     (\<lparr>count = - 9223372036854775808, limit = 1, mu = False, waitList = [], timeout = None\<rparr>,
      []) =
     (Returned,
      (\<lparr>count = 9223372036854775807, limit = 1, mu = False, waitList = [], timeout = None\<rparr>,
       []))"
  by code_simp

text \<open>
  Claim C7, amended. In every state of the gate with the mutex free, \<^verbatim>\<open>Finish\<close> takes
  one from the count in Go's wrapping arithmetic, which is the count less one unless
  the count is the least integer, and drops the first entry of the wait structure, if
  there is one: the front of the FIFO list, and of the priority queue its best entry,
  which stands before all the others in priority and, at equal priority, in arrival.
  The count is not raised again for the entry that was popped, and the entries behind
  it stay as they were, in their order. If the popped entry's caller still waits on its
  channel, \<^verbatim>\<open>Finish\<close> returns and the signal has fired: that channel, and no other, is
  now closed and its receiver woken. With an empty wait structure \<^verbatim>\<open>Finish\<close> returns
  and touches no channel.
\<close>

theorem Finish_hand_off:
  assumes free: "\<not> mu l" "\<not> p_mu p"
    and fifo: "Limiter_Finish (l, chs) = (st, (l', chs'))"
    and prio: "PriorityLimiter_Finish (p, cs) = (pst, (p', cs'))"
  shows "count l' = wrap64 (count l - 1) \<and>
         (int64 (count l - 1) \<longrightarrow> count l' = count l - 1) \<and>
         waitList l' = drop 1 (waitList l) \<and>
         (waitList l = [] \<longrightarrow> st = Returned \<and> chs' = chs) \<and>
         (\<forall>first rest. waitList l = first # rest \<and> all_parked [first] chs \<longrightarrow>
            st = Returned \<and> chs' = chs[first := \<lparr>closed = True, parked = False\<rparr>] \<and>
            fired chs chs' = [first]) \<and>
         p_count p' = wrap64 (p_count p - 1) \<and>
         (int64 (p_count p - 1) \<longrightarrow> p_count p' = p_count p - 1) \<and>
         items (p_waitList p') = drop 1 (items (p_waitList p)) \<and>
         (items (p_waitList p) = [] \<longrightarrow> pst = Returned \<and> cs' = cs) \<and>
         (\<forall>it rest. items (p_waitList p) = it # rest \<and> all_parked [Done it] cs \<longrightarrow>
            pst = Returned \<and> cs' = cs[Done it := \<lparr>closed = True, parked = False\<rparr>] \<and>
            fired cs cs' = [Done it]) \<and>
         (\<forall>it rest. items (p_waitList p) = it # rest \<and> pq_sorted (p_waitList p) \<longrightarrow>
            (\<forall>x \<in> set rest. before it x))"
proof -
  have c: "count l' = wrap64 (count l - 1)" "waitList l' = drop 1 (waitList l)"
    using Limiter_Finish_count [OF free(1) fifo] by simp_all
  then have "int64 (count l - 1) \<longrightarrow> count l' = count l - 1"
    by (simp add: wrap64_id)
  moreover have "waitList l = [] \<longrightarrow> st = Returned \<and> chs' = chs"
    using fifo free(1) by (auto simp: Limiter_Finish_empty)
  moreover have "\<forall>first rest. waitList l = first # rest \<and> all_parked [first] chs \<longrightarrow>
      st = Returned \<and> chs' = chs[first := \<lparr>closed = True, parked = False\<rparr>] \<and>
      fired chs chs' = [first]"
  proof (intro allI impI, elim conjE)
    fix first rest
    assume w: "waitList l = first # rest" and one: "all_parked [first] chs"
    have "first < length chs" "\<not> closed (chs ! first)"
      using one by (simp_all add: all_parked_def)
    then have "fired chs (chs[first := \<lparr>closed = True, parked = False\<rparr>]) = [first]"
      by (rule fired_close)
    with fifo Limiter_Finish_fires [OF free(1) w one]
    show "st = Returned \<and> chs' = chs[first := \<lparr>closed = True, parked = False\<rparr>] \<and>
        fired chs chs' = [first]"
      by simp
  qed
  moreover have pc: "p_count p' = wrap64 (p_count p - 1)"
    "items (p_waitList p') = drop 1 (items (p_waitList p))"
    using PriorityLimiter_Finish_count [OF free(2) prio] by simp_all
  moreover have "int64 (p_count p - 1) \<longrightarrow> p_count p' = p_count p - 1"
    using pc(1) by (simp add: wrap64_id)
  moreover have "items (p_waitList p) = [] \<longrightarrow> pst = Returned \<and> cs' = cs"
    using prio free(2) by (auto simp: PriorityLimiter_Finish_empty)
  moreover have "\<forall>it rest. items (p_waitList p) = it # rest \<and> all_parked [Done it] cs \<longrightarrow>
      pst = Returned \<and> cs' = cs[Done it := \<lparr>closed = True, parked = False\<rparr>] \<and>
      fired cs cs' = [Done it]"
  proof (intro allI impI, elim conjE)
    fix it rest
    assume w: "items (p_waitList p) = it # rest" and one: "all_parked [Done it] cs"
    have "Done it < length cs" "\<not> closed (cs ! Done it)"
      using one by (simp_all add: all_parked_def)
    then have "fired cs (cs[Done it := \<lparr>closed = True, parked = False\<rparr>]) = [Done it]"
      by (rule fired_close)
    with prio PriorityLimiter_Finish_fires [OF free(2) w one]
    show "pst = Returned \<and> cs' = cs[Done it := \<lparr>closed = True, parked = False\<rparr>] \<and>
        fired cs cs' = [Done it]"
      by simp
  qed
  moreover have "\<forall>it rest. items (p_waitList p) = it # rest \<and> pq_sorted (p_waitList p) \<longrightarrow>
      (\<forall>x \<in> set rest. before it x)"
    by (auto simp: pq_sorted_def)
  ultimately show ?thesis using c by blast
qed

text \<open>
  A FIFO gate with two waiting callers, and a priority gate where a High entry arrived
  after a Low one.
\<close>

theorem Finish_hand_off_witness:
  "Limiter_Finish
     (\<lparr>count = 1, limit = 1, mu = False, waitList = [0, 1], timeout = None\<rparr>,
      [\<lparr>closed = False, parked = True\<rparr>, \<lparr>closed = False, parked = True\<rparr>]) =
     (Returned,
      (\<lparr>count = 0, limit = 1, mu = False, waitList = [1], timeout = None\<rparr>,
       [\<lparr>closed = True, parked = False\<rparr>, \<lparr>closed = False, parked = True\<rparr>])) \<and>
   PriorityLimiter_Finish
     (\<lparr>p_count = 1, p_limit = 1, p_mu = False,
       p_waitList = \<lparr>items = [\<lparr>Done = 1, Priority = 4, sequence = 1\<rparr>,
                               \<lparr>Done = 0, Priority = 1, sequence = 0\<rparr>], arrivals = 2\<rparr>,
       p_dynamicPeriod = None, p_timeout = None\<rparr>,
      [\<lparr>closed = False, parked = True\<rparr>, \<lparr>closed = False, parked = True\<rparr>]) =
     (Returned,
      (\<lparr>p_count = 0, p_limit = 1, p_mu = False,
        p_waitList = \<lparr>items = [\<lparr>Done = 0, Priority = 1, sequence = 0\<rparr>], arrivals = 2\<rparr>,
        p_dynamicPeriod = None, p_timeout = None\<rparr>,
       [\<lparr>closed = False, parked = True\<rparr>, \<lparr>closed = True, parked = False\<rparr>])) \<and>
   before \<lparr>Done = 1, Priority = 4, sequence = 1\<rparr> \<lparr>Done = 0, Priority = 1, sequence = 0\<rparr>"
proof -
  let ?l = "\<lparr>count = 1, limit = 1, mu = False, waitList = [0, 1], timeout = None\<rparr>"
  let ?chs = "[\<lparr>closed = False, parked = True\<rparr>, \<lparr>closed = False, parked = True\<rparr>]"
  let ?hi = "\<lparr>Done = 1, Priority = 4, sequence = 1\<rparr>"
  let ?lo = "\<lparr>Done = 0, Priority = 1, sequence = 0\<rparr>"
  let ?p = "\<lparr>p_count = 1, p_limit = 1, p_mu = False,
             p_waitList = \<lparr>items = [?hi, ?lo], arrivals = 2\<rparr>,
             p_dynamicPeriod = None, p_timeout = None\<rparr>"
  let ?l' = "\<lparr>count = 0, limit = 1, mu = False, waitList = [1], timeout = None\<rparr>"
  let ?chs' = "[\<lparr>closed = True, parked = False\<rparr>, \<lparr>closed = False, parked = True\<rparr>]"
  let ?p' = "\<lparr>p_count = 0, p_limit = 1, p_mu = False,
              p_waitList = \<lparr>items = [?lo], arrivals = 2\<rparr>,
              p_dynamicPeriod = None, p_timeout = None\<rparr>"
  let ?cs' = "[\<lparr>closed = False, parked = True\<rparr>, \<lparr>closed = True, parked = False\<rparr>]"
  have fifo: "Limiter_Finish (?l, ?chs) = (Returned, (?l', ?chs'))"
    by code_simp
  have prio: "PriorityLimiter_Finish (?p, ?chs) = (Returned, (?p', ?cs'))"
    by code_simp
  have free: "\<not> mu ?l" "\<not> p_mu ?p" by simp_all
  have sorted: "pq_sorted (p_waitList ?p)"
    by (simp add: pq_sorted_def before_def)
  from Finish_hand_off [OF free fifo prio] sorted have "before ?hi ?lo"
    by auto
  with fifo prio show ?thesis by simp
qed

section \<open>Runs of fast-path acquires and of releases\<close>

lemma Limiter_step_fast:
  "\<not> mu l \<Longrightarrow> count l < limit l \<Longrightarrow>
     Limiter_step Acquire (l, chs) =
       (Returned, FastPath, (l\<lparr>count := wrap64 (count l + 1)\<rparr>, chs))"
  by (simp add: Limiter_step_def Limiter_Wait_begin_def Limiter_proceed_def)

lemma Limiter_step_queues:
  "\<not> mu l \<Longrightarrow> \<not> count l < limit l \<Longrightarrow>
     Limiter_step Acquire (l, chs) =
       (Returned, Queued (length chs),
        (l\<lparr>waitList := waitList l @ [length chs]\<rparr>, chs @ [\<lparr>closed = False, parked = True\<rparr>]))"
  by (simp add: Limiter_step_def Limiter_Wait_begin_def Limiter_proceed_def make_chan_def park_def)

lemma Limiter_run_fast:
  "\<not> mu l \<Longrightarrow> int64 (count l) \<Longrightarrow> int64 (limit l) \<Longrightarrow> count l + int n \<le> limit l \<Longrightarrow>
     Limiter_run (replicate n Acquire) (l, chs) =
       (Returned, replicate n FastPath, (l\<lparr>count := count l + int n\<rparr>, chs))"
proof (induction n arbitrary: l)
  case 0
  then show ?case by simp
next
  case (Suc n)
  then have less: "count l < limit l" by simp
  with Suc.prems(2,3) have "int64 (count l + 1)" by (simp add: int64_def)
  then have up: "wrap64 (count l + 1) = count l + 1" by (rule wrap64_id)
  have "Limiter_step Acquire (l, chs) = (Returned, FastPath, (l\<lparr>count := count l + 1\<rparr>, chs))"
    using Limiter_step_fast [OF Suc.prems(1) less] up by simp
  moreover have "Limiter_run (replicate n Acquire) (l\<lparr>count := count l + 1\<rparr>, chs) =
      (Returned, replicate n FastPath, (l\<lparr>count := count l + 1 + int n\<rparr>, chs))"
    using Suc.IH [of "l\<lparr>count := count l + 1\<rparr>"] Suc.prems \<open>int64 (count l + 1)\<close> by simp
  ultimately show ?case by (simp add: add.assoc)
qed

lemma Limiter_run_release:
  "\<not> mu l \<Longrightarrow> int64 (count l) \<Longrightarrow> waitList l = [] \<Longrightarrow>
     Limiter_run (replicate n Release) (l, chs) =
       (Returned, replicate n NoOne, (l\<lparr>count := wrap64 (count l - int n)\<rparr>, chs))"
proof (induction n arbitrary: l)
  case 0
  then show ?case by (simp add: wrap64_id)
next
  case (Suc n)
  let ?l1 = "l\<lparr>count := wrap64 (count l - 1)\<rparr>"
  have "Limiter_step Release (l, chs) = (Returned, NoOne, (?l1, chs))"
    using Suc.prems by (simp add: Limiter_step_def Limiter_Finish_empty woken_same)
  moreover have "Limiter_run (replicate n Release) (?l1, chs) =
      (Returned, replicate n NoOne, (?l1\<lparr>count := wrap64 (count ?l1 - int n)\<rparr>, chs))"
    using Suc.prems by (intro Suc.IH) (simp_all add: int64_wrap64)
  moreover have "wrap64 (count ?l1 - int n) = wrap64 (count l - int (Suc n))"
    by (simp add: wrap64_diff_wrap64 algebra_simps)
  ultimately show ?case by simp
qed

lemma PriorityLimiter_run_fast:
  "\<not> p_mu p \<Longrightarrow> int64 (p_count p) \<Longrightarrow> int64 (p_limit p) \<Longrightarrow>
   p_count p + int (length ps) \<le> p_limit p \<Longrightarrow>
     PriorityLimiter_run (map PAcquire ps) (p, chs) =
       (Returned, replicate (length ps) FastPath,
        (p\<lparr>p_count := p_count p + int (length ps)\<rparr>, chs))"
proof (induction ps arbitrary: p)
  case Nil
  then show ?case by simp
next
  case (Cons pr ps)
  then have less: "p_count p < p_limit p" by simp
  with Cons.prems(2,3) have "int64 (p_count p + 1)" by (simp add: int64_def)
  then have up: "wrap64 (p_count p + 1) = p_count p + 1" by (rule wrap64_id)
  have "PriorityLimiter_step (PAcquire pr) (p, chs) =
      (Returned, FastPath, (p\<lparr>p_count := p_count p + 1\<rparr>, chs))"
    using PriorityLimiter_step_fast [OF Cons.prems(1) less] up by simp
  moreover have "PriorityLimiter_run (map PAcquire ps) (p\<lparr>p_count := p_count p + 1\<rparr>, chs) =
      (Returned, replicate (length ps) FastPath,
       (p\<lparr>p_count := p_count p + 1 + int (length ps)\<rparr>, chs))"
    using Cons.IH [of "p\<lparr>p_count := p_count p + 1\<rparr>"] Cons.prems \<open>int64 (p_count p + 1)\<close>
    by simp
  ultimately show ?case by (simp add: add.assoc)
qed

lemma PriorityLimiter_run_release:
  "\<not> p_mu p \<Longrightarrow> int64 (p_count p) \<Longrightarrow> items (p_waitList p) = [] \<Longrightarrow>
     PriorityLimiter_run (replicate n PRelease) (p, chs) =
       (Returned, replicate n NoOne, (p\<lparr>p_count := wrap64 (p_count p - int n)\<rparr>, chs))"
proof (induction n arbitrary: p)
  case 0
  then show ?case by (simp add: wrap64_id)
next
  case (Suc n)
  let ?p1 = "p\<lparr>p_count := wrap64 (p_count p - 1)\<rparr>"
  have "PriorityLimiter_step PRelease (p, chs) = (Returned, NoOne, (?p1, chs))"
    using Suc.prems by (simp add: PriorityLimiter_step_nobody)
  moreover have "PriorityLimiter_run (replicate n PRelease) (?p1, chs) =
      (Returned, replicate n NoOne, (?p1\<lparr>p_count := wrap64 (p_count ?p1 - int n)\<rparr>, chs))"
    using Suc.prems by (intro Suc.IH) (simp_all add: int64_wrap64)
  moreover have "wrap64 (p_count ?p1 - int n) = wrap64 (p_count p - int (Suc n))"
    by (simp add: wrap64_diff_wrap64 algebra_simps)
  ultimately show ?case by simp
qed

lemma removeWaiter_loop_None: "removeWaiter_loop ch ws = None \<longleftrightarrow> ch \<notin> set ws"
  by (induction ws) auto

lemma Limiter_proceed_count:
  "\<not> mu l \<Longrightarrow>
     count (fst (snd (snd (Limiter_proceed (l, chs))))) =
       (if count l < limit l then wrap64 (count l + 1) else count l)"
  by (simp add: Limiter_proceed_def make_chan_def)

lemma Limiter_removeWaiter_count:
  "\<not> mu l \<Longrightarrow>
     count (fst (snd (Limiter_removeWaiter ch (l, chs)))) =
       (if ch \<in> set (waitList l) \<and> chan_close ch chs \<noteq> None
        then wrap64 (count l + 1) else count l)"
  using removeWaiter_loop_None [of ch "waitList l"]
  by (auto simp: Limiter_removeWaiter_def split: option.splits)

lemma PriorityLimiter_proceed_count:
  "\<not> p_mu p \<Longrightarrow>
     p_count (fst (snd (snd (PriorityLimiter_proceed pr (p, chs))))) =
       (if p_count p < p_limit p then wrap64 (p_count p + 1) else p_count p)"
  by (simp add: PriorityLimiter_proceed_def make_chan_def pq_Push_def Let_def)

lemma PriorityLimiter_removeWaiter_counts:
  "\<not> p_mu p \<Longrightarrow>
     p_count (fst (snd (PriorityLimiter_removeWaiter w (p, chs)))) = wrap64 (p_count p + 1)"
  by (auto simp: PriorityLimiter_removeWaiter_def Let_def split: option.splits)

lemma tick_count:
  "tick w (p, chs) = Some (k, st, (p', chs')) \<Longrightarrow> p_count p' = p_count p"
  by (auto simp: tick_def promote_def pq_Update_def split: if_splits prod.splits)

text \<open>
  Claim C10. \<^verbatim>\<open>Finish\<close> has no guard on the count. In every state of either gate with
  the mutex free, whatever the count, the wait structure and the channels, and whether
  it returns, blocks or panics, it leaves the count one lower in Go's wrapping
  arithmetic, which is the count less one unless the count is the least integer. Called
  with count 0 and an empty wait structure it returns and leaves the count at \<open>-1\<close>; from
  there \<open>limit + 1\<close> acquirers in a row all take the fast path, which brings the count
  to \<open>limit\<close>. No operation looks at the sign of the count or brings a negative count
  back: \<^verbatim>\<open>proceed\<close> compares the count with the limit only and adds one or nothing,
  \<^verbatim>\<open>removeWaiter\<close> adds one or nothing, the aging tick leaves the count alone. Nothing
  stops the descent: \<open>n\<close> releases on an empty wait structure take the count down by
  \<open>n\<close>, wrapping at the least integer.
\<close>

theorem Finish_has_no_lower_bound:
  assumes "\<not> mu l" and "\<not> p_mu p"
  shows "count (fst (snd (Limiter_Finish (l, chs)))) = wrap64 (count l - 1) \<and>
         (int64 (count l - 1) \<longrightarrow> count (fst (snd (Limiter_Finish (l, chs)))) = count l - 1) \<and>
         (count l = 0 \<and> waitList l = [] \<longrightarrow>
            Limiter_Finish (l, chs) = (Returned, (l\<lparr>count := - 1\<rparr>, chs))) \<and>
         (0 < limit l \<and> int64 (limit l) \<longrightarrow>
            Limiter_run (replicate (nat (limit l) + 1) Acquire) (l\<lparr>count := - 1\<rparr>, chs) =
              (Returned, replicate (nat (limit l) + 1) FastPath, (l\<lparr>count := limit l\<rparr>, chs))) \<and>
         (int64 (count l) \<and> waitList l = [] \<longrightarrow>
            Limiter_run (replicate n Release) (l, chs) =
              (Returned, replicate n NoOne, (l\<lparr>count := wrap64 (count l - int n)\<rparr>, chs))) \<and>
         count (fst (snd (snd (Limiter_proceed (l, chs))))) =
           (if count l < limit l then wrap64 (count l + 1) else count l) \<and>
         count (fst (snd (Limiter_removeWaiter ch (l, chs)))) =
           (if ch \<in> set (waitList l) \<and> chan_close ch chs \<noteq> None
            then wrap64 (count l + 1) else count l) \<and>
         p_count (fst (snd (PriorityLimiter_Finish (p, chs)))) = wrap64 (p_count p - 1) \<and>
         (int64 (p_count p - 1) \<longrightarrow>
            p_count (fst (snd (PriorityLimiter_Finish (p, chs)))) = p_count p - 1) \<and>
         (p_count p = 0 \<and> items (p_waitList p) = [] \<longrightarrow>
            PriorityLimiter_Finish (p, chs) = (Returned, (p\<lparr>p_count := - 1\<rparr>, chs))) \<and>
         (0 < p_limit p \<and> int64 (p_limit p) \<and> length ps = nat (p_limit p) + 1 \<longrightarrow>
            PriorityLimiter_run (map PAcquire ps) (p\<lparr>p_count := - 1\<rparr>, chs) =
              (Returned, replicate (nat (p_limit p) + 1) FastPath,
               (p\<lparr>p_count := p_limit p\<rparr>, chs))) \<and>
         (int64 (p_count p) \<and> items (p_waitList p) = [] \<longrightarrow>
            PriorityLimiter_run (replicate n PRelease) (p, chs) =
              (Returned, replicate n NoOne, (p\<lparr>p_count := wrap64 (p_count p - int n)\<rparr>, chs))) \<and>
         p_count (fst (snd (snd (PriorityLimiter_proceed pr (p, chs))))) =
           (if p_count p < p_limit p then wrap64 (p_count p + 1) else p_count p) \<and>
         p_count (fst (snd (PriorityLimiter_removeWaiter w (p, chs)))) =
           wrap64 (p_count p + 1) \<and>
         (\<forall>k st p' chs'. tick w (p, chs) = Some (k, st, (p', chs')) \<longrightarrow> p_count p' = p_count p)"
proof -
  have f1: "count (fst (snd (Limiter_Finish (l, chs)))) = wrap64 (count l - 1)"
    using Limiter_Finish_count [OF assms(1), of chs] by (metis prod.collapse)
  then have f2: "int64 (count l - 1) \<longrightarrow>
      count (fst (snd (Limiter_Finish (l, chs)))) = count l - 1"
    by (simp add: wrap64_id)
  have f3: "count l = 0 \<and> waitList l = [] \<longrightarrow>
      Limiter_Finish (l, chs) = (Returned, (l\<lparr>count := - 1\<rparr>, chs))"
    using assms(1) by (simp add: Limiter_Finish_empty wrap64_def)
  have f4: "0 < limit l \<and> int64 (limit l) \<longrightarrow>
      Limiter_run (replicate (nat (limit l) + 1) Acquire) (l\<lparr>count := - 1\<rparr>, chs) =
        (Returned, replicate (nat (limit l) + 1) FastPath, (l\<lparr>count := limit l\<rparr>, chs))"
    using Limiter_run_fast [of "l\<lparr>count := - 1\<rparr>" "nat (limit l) + 1" chs] assms(1)
    by (simp add: int64_def)
  have f5: "int64 (count l) \<and> waitList l = [] \<longrightarrow>
      Limiter_run (replicate n Release) (l, chs) =
        (Returned, replicate n NoOne, (l\<lparr>count := wrap64 (count l - int n)\<rparr>, chs))"
    using Limiter_run_release [OF assms(1), of n chs] by simp
  note f6 = Limiter_proceed_count [OF assms(1), of chs]
  note f7 = Limiter_removeWaiter_count [OF assms(1), of ch chs]
  have p1: "p_count (fst (snd (PriorityLimiter_Finish (p, chs)))) = wrap64 (p_count p - 1)"
    using PriorityLimiter_Finish_count [OF assms(2), of chs] by (metis prod.collapse)
  then have p2: "int64 (p_count p - 1) \<longrightarrow>
      p_count (fst (snd (PriorityLimiter_Finish (p, chs)))) = p_count p - 1"
    by (simp add: wrap64_id)
  have p3: "p_count p = 0 \<and> items (p_waitList p) = [] \<longrightarrow>
      PriorityLimiter_Finish (p, chs) = (Returned, (p\<lparr>p_count := - 1\<rparr>, chs))"
    using assms(2) by (simp add: PriorityLimiter_Finish_empty wrap64_def)
  have p4: "0 < p_limit p \<and> int64 (p_limit p) \<and> length ps = nat (p_limit p) + 1 \<longrightarrow>
      PriorityLimiter_run (map PAcquire ps) (p\<lparr>p_count := - 1\<rparr>, chs) =
        (Returned, replicate (nat (p_limit p) + 1) FastPath,
         (p\<lparr>p_count := p_limit p\<rparr>, chs))"
    using PriorityLimiter_run_fast [of "p\<lparr>p_count := - 1\<rparr>" ps chs] assms(2)
    by (simp add: int64_def)
  have p5: "int64 (p_count p) \<and> items (p_waitList p) = [] \<longrightarrow>
      PriorityLimiter_run (replicate n PRelease) (p, chs) =
        (Returned, replicate n NoOne, (p\<lparr>p_count := wrap64 (p_count p - int n)\<rparr>, chs))"
    using PriorityLimiter_run_release [OF assms(2), of n chs] by simp
  note p6 = PriorityLimiter_proceed_count [OF assms(2), of pr chs]
  note p7 = PriorityLimiter_removeWaiter_counts [OF assms(2), of w chs]
  have p8: "\<forall>k st p' chs'. tick w (p, chs) = Some (k, st, (p', chs')) \<longrightarrow> p_count p' = p_count p"
    using tick_count by blast
  show ?thesis
    using f1 f2 f3 f4 f5 f6 f7 p1 p2 p3 p4 p5 p6 p7 p8 by blast
qed

text \<open>
  Gates of limit 2. One stray release, then three fast-path admissions; two releases
  on the fresh gate; and a release that hands off, from count 0 with a caller waiting,
  lowers the count all the same.
\<close>

theorem Finish_has_no_lower_bound_witness:
  "Limiter_Finish (New 2 [], []) = (Returned, ((New 2 [])\<lparr>count := - 1\<rparr>, [])) \<and>
   Limiter_run [Acquire, Acquire, Acquire] ((New 2 [])\<lparr>count := - 1\<rparr>, []) =
     (Returned, [FastPath, FastPath, FastPath], ((New 2 [])\<lparr>count := 2\<rparr>, [])) \<and>
   Limiter_run [Release, Release] (New 2 [], []) =
     (Returned, [NoOne, NoOne], ((New 2 [])\<lparr>count := - 2\<rparr>, [])) \<and>
   count (fst (snd (Limiter_Finish
     ((New 2 [])\<lparr>waitList := [0]\<rparr>, [\<lparr>closed = False, parked = True\<rparr>])))) = - 1 \<and>
   PriorityLimiter_Finish (NewLimiter 2 [], []) =
     (Returned, ((NewLimiter 2 [])\<lparr>p_count := - 1\<rparr>, [])) \<and>
   PriorityLimiter_run [PAcquire Low, PAcquire High, PAcquire Low]
     ((NewLimiter 2 [])\<lparr>p_count := - 1\<rparr>, []) =
     (Returned, [FastPath, FastPath, FastPath], ((NewLimiter 2 [])\<lparr>p_count := 2\<rparr>, [])) \<and>
   PriorityLimiter_run [PRelease, PRelease] (NewLimiter 2 [], []) =
     (Returned, [NoOne, NoOne], ((NewLimiter 2 [])\<lparr>p_count := - 2\<rparr>, []))"
proof -
  have l: "\<not> mu (New 2 [])" "count (New 2 []) = 0" "waitList (New 2 []) = []"
    "limit (New 2 []) = 2"
    by (simp_all add: New_def)
  have p: "\<not> p_mu (NewLimiter 2 [])" "p_count (NewLimiter 2 []) = 0"
    "items (p_waitList (NewLimiter 2 [])) = []" "p_limit (NewLimiter 2 []) = 2"
    by (simp_all add: NewLimiter_def pq_empty_def)
  have small: "int64 2" "int64 0" "int64 (0 - 1)" "wrap64 (0 - int 2) = - 2"
    by (simp_all add: int64_def wrap64_def)
  let ?lw = "(New 2 [])\<lparr>waitList := [0]\<rparr>"
  have lw: "\<not> mu ?lw" "count ?lw = 0" by (simp_all add: New_def)
  from Finish_has_no_lower_bound [OF l(1) p(1), of "[]" 2 0 "[Low, High, Low]" Low
      "\<lparr>Done = 0, Priority = Low, sequence = 0\<rparr>"]
  have a: "Limiter_Finish (New 2 [], []) = (Returned, ((New 2 [])\<lparr>count := - 1\<rparr>, []))"
    "Limiter_run [Acquire, Acquire, Acquire] ((New 2 [])\<lparr>count := - 1\<rparr>, []) =
       (Returned, [FastPath, FastPath, FastPath], ((New 2 [])\<lparr>count := 2\<rparr>, []))"
    "Limiter_run [Release, Release] (New 2 [], []) =
       (Returned, [NoOne, NoOne], ((New 2 [])\<lparr>count := - 2\<rparr>, []))"
    "PriorityLimiter_Finish (NewLimiter 2 [], []) =
       (Returned, ((NewLimiter 2 [])\<lparr>p_count := - 1\<rparr>, []))"
    "PriorityLimiter_run [PAcquire Low, PAcquire High, PAcquire Low]
       ((NewLimiter 2 [])\<lparr>p_count := - 1\<rparr>, []) =
       (Returned, [FastPath, FastPath, FastPath], ((NewLimiter 2 [])\<lparr>p_count := 2\<rparr>, []))"
    "PriorityLimiter_run [PRelease, PRelease] (NewLimiter 2 [], []) =
       (Returned, [NoOne, NoOne], ((NewLimiter 2 [])\<lparr>p_count := - 2\<rparr>, []))"
    using l p small by (simp_all add: numeral_2_eq_2 numeral_3_eq_3)
  have "int64 (count ?lw - 1) \<longrightarrow>
      count (fst (snd (Limiter_Finish (?lw, [\<lparr>closed = False, parked = True\<rparr>])))) =
        count ?lw - 1"
    using Finish_has_no_lower_bound [OF lw(1) p(1)] by blast
  then have
    "count (fst (snd (Limiter_Finish (?lw, [\<lparr>closed = False, parked = True\<rparr>])))) = - 1"
    using lw(2) small(3) by simp
  with a show ?thesis by simp
qed

section \<open>Construction\<close>

lemma New_fields:
  "set opts \<subseteq> range WithTimeout \<Longrightarrow>
     count (fold (\<lambda>opt l. opt l) opts l0) = count l0 \<and>
     limit (fold (\<lambda>opt l. opt l) opts l0) = limit l0 \<and>
     mu (fold (\<lambda>opt l. opt l) opts l0) = mu l0 \<and>
     waitList (fold (\<lambda>opt l. opt l) opts l0) = waitList l0"
  by (induction opts arbitrary: l0) (auto simp: WithTimeout_def)

lemma NewLimiter_fields:
  "set opts \<subseteq> range WithDynamicPriority \<union> range PriorityLimiter_WithTimeout \<Longrightarrow>
     p_count (fold (\<lambda>opt p. opt p) opts p0) = p_count p0 \<and>
     p_limit (fold (\<lambda>opt p. opt p) opts p0) = p_limit p0 \<and>
     p_mu (fold (\<lambda>opt p. opt p) opts p0) = p_mu p0 \<and>
     p_waitList (fold (\<lambda>opt p. opt p) opts p0) = p_waitList p0"
  by (induction opts arbitrary: p0)
    (auto simp: WithDynamicPriority_def PriorityLimiter_WithTimeout_def)

text \<open>
  Claim C9 says that construction with a limit that is not positive fails. It does not:
  \<^verbatim>\<open>New\<close> and \<^verbatim>\<open>NewLimiter\<close> have no error result and no check. With limit 0 and
  with limit \<open>-1\<close> they return a gate, and the gate of limit 0 works: an acquire on it
  is queued and a release grants it.
\<close>

theorem New_accepts_limit_zero:
  "New 0 [] = \<lparr>count = 0, limit = 0, mu = False, waitList = [], timeout = None\<rparr> \<and>
   Limiter_run [Acquire, Release] (New 0 [], []) =
     (Returned, [Queued 0, HandOff 0],
      (\<lparr>count = - 1, limit = 0, mu = False, waitList = [], timeout = None\<rparr>,
       [\<lparr>closed = True, parked = False\<rparr>])) \<and>
   NewLimiter 0 [] =
     \<lparr>p_count = 0, p_limit = 0, p_mu = False, p_waitList = \<lparr>items = [], arrivals = 0\<rparr>,
      p_dynamicPeriod = None, p_timeout = None\<rparr> \<and>
   fst (PriorityLimiter_run [PAcquire Low, PRelease] (NewLimiter 0 [], [])) = Returned \<and>
   limit (New (- 1) [WithTimeout 5]) = - 1 \<and>
   p_limit (NewLimiter (- 1) [WithDynamicPriority 5]) = - 1"
  by code_simp

text \<open>
  Claim C9, amended. For every limit, also one that is not positive, construction
  does not fail: \<^verbatim>\<open>New\<close> and \<^verbatim>\<open>NewLimiter\<close> with any of their options return a gate
  that holds this limit, count 0, a free mutex and an empty wait structure.
\<close>

theorem New_does_not_validate:
  assumes "set opts \<subseteq> range WithTimeout"
    and "set popts \<subseteq> range WithDynamicPriority \<union> range PriorityLimiter_WithTimeout"
  shows "limit (New lim opts) = lim \<and> count (New lim opts) = 0 \<and>
         \<not> mu (New lim opts) \<and> waitList (New lim opts) = [] \<and>
         p_limit (NewLimiter lim popts) = lim \<and> p_count (NewLimiter lim popts) = 0 \<and>
         \<not> p_mu (NewLimiter lim popts) \<and> items (p_waitList (NewLimiter lim popts)) = []"
  using New_fields [OF assms(1)] NewLimiter_fields [OF assms(2)]
  by (simp add: New_def NewLimiter_def pq_empty_def)

text \<open>Limit 0 and limit \<open>-3\<close>, with options.\<close>

theorem New_does_not_validate_witness:
  "limit (New 0 [WithTimeout 5]) = 0 \<and> count (New 0 [WithTimeout 5]) = 0 \<and>
   \<not> mu (New 0 [WithTimeout 5]) \<and> waitList (New 0 [WithTimeout 5]) = [] \<and>
   p_limit (NewLimiter (- 3) [WithDynamicPriority 5, PriorityLimiter_WithTimeout 9]) = - 3 \<and>
   p_count (NewLimiter (- 3) [WithDynamicPriority 5, PriorityLimiter_WithTimeout 9]) = 0 \<and>
   \<not> p_mu (NewLimiter (- 3) [WithDynamicPriority 5, PriorityLimiter_WithTimeout 9]) \<and>
   items (p_waitList (NewLimiter (- 3) [WithDynamicPriority 5, PriorityLimiter_WithTimeout 9]))
     = []"
proof -
  have opts: "set [WithTimeout 5] \<subseteq> range WithTimeout"
    "set [WithDynamicPriority 5, PriorityLimiter_WithTimeout 9]
       \<subseteq> range WithDynamicPriority \<union> range PriorityLimiter_WithTimeout"
    by auto
  have a: "limit (New 0 [WithTimeout 5]) = 0 \<and> count (New 0 [WithTimeout 5]) = 0 \<and>
      \<not> mu (New 0 [WithTimeout 5]) \<and> waitList (New 0 [WithTimeout 5]) = []"
    using New_does_not_validate [OF opts, of 0] by blast
  have b: "p_limit (NewLimiter (- 3) [WithDynamicPriority 5, PriorityLimiter_WithTimeout 9])
        = - 3 \<and>
      p_count (NewLimiter (- 3) [WithDynamicPriority 5, PriorityLimiter_WithTimeout 9]) = 0 \<and>
      \<not> p_mu (NewLimiter (- 3) [WithDynamicPriority 5, PriorityLimiter_WithTimeout 9]) \<and>
      items (p_waitList
        (NewLimiter (- 3) [WithDynamicPriority 5, PriorityLimiter_WithTimeout 9])) = []"
    using New_does_not_validate [OF opts, of "- 3"] by blast
  from a b show ?thesis by blast
qed

section \<open>The count and the callers inside\<close>

lemma Limiter_step_upper:
  assumes "\<not> mu l" and "int64 (limit l)" and "- 9223372036854775808 < count l"
    and "count l \<le> limit l" and "Limiter_step a (l, chs) = (st, adm, (l', chs'))"
  shows "count l' \<le> limit l'"
proof (cases a)
  case Acquire
  show ?thesis
  proof (cases "count l < limit l")
    case True
    with assms(2,3) have "int64 (count l + 1)" by (simp add: int64_def)
    then have "wrap64 (count l + 1) = count l + 1" by (rule wrap64_id)
    with assms(5) Acquire True Limiter_step_fast [OF assms(1) True, of chs] show ?thesis
      by auto
  next
    case False
    with assms(4,5) Acquire Limiter_step_queues [OF assms(1) False, of chs] show ?thesis
      by auto
  qed
next
  case Release
  obtain st1 l1 chs1 where fin: "Limiter_Finish (l, chs) = (st1, (l1, chs1))"
    by (metis prod.collapse)
  with assms(5) Release have l': "l' = l1"
    by (simp add: Limiter_step_def)
  have "int64 (count l - 1)"
    using assms(2,3,4) by (simp add: int64_def)
  then have "wrap64 (count l - 1) = count l - 1" by (rule wrap64_id)
  with Limiter_Finish_count [OF assms(1) fin] assms(4) l' show ?thesis by simp
qed

text \<open>
  Claim C1 says that on a gate of positive limit, under acquire and release calls
  alone, the count stays between 0 and the limit and no more than \<open>limit\<close> callers are
  inside at once. The upper bound on the count holds, short of the wrap at the least
  integer (\<open>Limiter_step_upper\<close>); the lower bound and the bound on the callers inside
  do not. On gates of limit 1: caller A enters, caller B is queued, A's release hands
  the slot to B without counting B; B's own release then takes the count to \<open>-1\<close>. And
  when a third caller arrives instead while B is inside, it finds the count at 0 and
  goes in on the fast path: two callers are inside.
\<close>

theorem count_negative_and_two_inside:
  "(case Limiter_run [Acquire, Acquire, Release, Release] (New 1 [], []) of
      (st, log, (l, chs)) \<Rightarrow>
        st = Returned \<and> log = [FastPath, Queued 0, HandOff 0, NoOne] \<and>
        limit l = 1 \<and> count l = - 1) \<and>
   (case Limiter_run [Acquire, Acquire, Release, Acquire] (New 1 [], []) of
      (st, log, (l, chs)) \<Rightarrow>
        st = Returned \<and> log = [FastPath, Queued 0, HandOff 0, FastPath] \<and>
        limit l = 1 \<and> inside log = 2) \<and>
   (case PriorityLimiter_run [PAcquire Low, PAcquire Low, PRelease, PRelease]
           (NewLimiter 1 [], []) of
      (st, log, (p, chs)) \<Rightarrow> st = Returned \<and> p_limit p = 1 \<and> p_count p = - 1) \<and>
   (case PriorityLimiter_run [PAcquire Low, PAcquire Low, PRelease, PAcquire Low]
           (NewLimiter 1 [], []) of
      (st, log, (p, chs)) \<Rightarrow> st = Returned \<and> p_limit p = 1 \<and> inside log = 2)"
  by code_simp

section \<open>Cancellation and timeout\<close>

lemma Limiter_removeWaiter_absent:
  "\<not> mu l \<Longrightarrow> ch \<notin> set (waitList l) \<Longrightarrow>
     Limiter_removeWaiter ch (l, chs) = (Returned, (l, chs))"
  using removeWaiter_loop_None [of ch "waitList l"]
  by (simp add: Limiter_removeWaiter_def)

lemma Limiter_removeWaiter_locked:
  "mu l \<Longrightarrow> Limiter_removeWaiter ch (l, chs) = (Blocked, (l, chs))"
  by (simp add: Limiter_removeWaiter_def)

lemma PriorityLimiter_removeWaiter_locked:
  "p_mu p \<Longrightarrow> PriorityLimiter_removeWaiter w (p, chs) = (Blocked, (p, chs))"
  by (simp add: PriorityLimiter_removeWaiter_def)

text \<open>
  Claim C2 says that on every gate, when a caller comes to remove its entry and another
  trigger has removed it already, as when a release popped it, the removal is a
  harmless no-op. The scan of the wait list in the FIFO gate's \<^verbatim>\<open>removeWaiter\<close> is
  written for that case (\<open>Limiter_removeWaiter_absent\<close>), but the case never gets that
  far. On gates of limit 1 without timeout or aging, caller A is inside and caller B is
  queued. B's context is cancelled and B's \<^verbatim>\<open>select\<close> takes that case; before B has
  the mutex, A's \<^verbatim>\<open>Finish\<close> takes it, pops B's entry and sends on B's channel, where
  nobody receives any more: \<^verbatim>\<open>Finish\<close> blocks with the mutex held. B's
  \<^verbatim>\<open>removeWaiter\<close> then blocks in \<^verbatim>\<open>Lock\<close>. Neither call returns, on either gate, and
  B's channel is never closed.
\<close>

theorem cancel_racing_release_deadlocks:
  "(case Limiter_run [Acquire, Acquire] (New 1 [], []) of
      (st, log, (l, chs)) \<Rightarrow>
        log = [FastPath, Queued 0] \<and> waitList l = [0] \<and> \<not> mu l \<and>
        (case Limiter_Finish (l, unpark 0 chs) of
           (st1, (l1, chs1)) \<Rightarrow>
             st1 = Blocked \<and> mu l1 \<and> waitList l1 = [] \<and> count l1 = 0 \<and>
             chs1 = [\<lparr>closed = False, parked = False\<rparr>] \<and>
             Limiter_Wait_case CtxDone 0 (l1, chs1) = Some (Blocked, (l1, chs1)))) \<and>
   (case PriorityLimiter_run [PAcquire Low, PAcquire Low] (NewLimiter 1 [], []) of
      (st, log, (p, chs)) \<Rightarrow>
        log = [FastPath, Queued \<lparr>Done = 0, Priority = 1, sequence = 0\<rparr>] \<and>
        items (p_waitList p) = [\<lparr>Done = 0, Priority = 1, sequence = 0\<rparr>] \<and> \<not> p_mu p \<and>
        (case PriorityLimiter_Finish (p, unpark 0 chs) of
           (st1, (p1, chs1)) \<Rightarrow>
             st1 = Blocked \<and> p_mu p1 \<and> items (p_waitList p1) = [] \<and> p_count p1 = 0 \<and>
             chs1 = [\<lparr>closed = False, parked = False\<rparr>] \<and>
             PriorityLimiter_Wait_case CtxDone False
                 \<lparr>Done = 0, Priority = 1, sequence = 0\<rparr> (p1, chs1) =
               Some (Leave, Blocked, (p1, chs1))))"
  by code_simp

text \<open>
  Claim C3 says that the signal of every wait entry fires exactly once, whatever the
  order of grant, cancellation and timeout. On a FIFO gate with a timeout configured,
  a queued caller whose context is cancelled returns from \<^verbatim>\<open>Wait\<close> and nothing has
  fired: its channel is open and was never sent to. The entry is still in the wait
  list; the release that pops it later blocks in the send, so that the channel is
  never closed either.
\<close>

theorem cancelled_entry_never_fires:
  "(case Limiter_run [Acquire, Acquire] (New 1 [WithTimeout 5], []) of
      (st, log, s) \<Rightarrow>
        log = [FastPath, Queued 0] \<and> snd s = [\<lparr>closed = False, parked = True\<rparr>] \<and>
        (case Limiter_Wait_select CtxDone 0 s of
           None \<Rightarrow> False
         | Some (st1, (l1, chs1)) \<Rightarrow>
             st1 = Returned \<and> chs1 = [\<lparr>closed = False, parked = False\<rparr>] \<and>
             (case Limiter_Finish (l1, chs1) of
                (st2, (l2, chs2)) \<Rightarrow>
                  st2 = Blocked \<and> waitList l2 = [] \<and>
                  chs2 = [\<lparr>closed = False, parked = False\<rparr>])))"
  by code_simp

text \<open>
  Claim C4 says that a queued caller of the FIFO gate removes its own entry when its
  context is cancelled, with a timeout configured as without. Without a timeout it does:
  the entry leaves the wait list, its channel is closed and the count goes up by one.
  With a timeout the case of the cancelled context is empty: the caller returns, its
  entry stays in the wait list and the count is what it was.
\<close>

theorem cancel_with_timeout_keeps_entry:
  "(case Limiter_run [Acquire, Acquire] (New 1 [WithTimeout 5], []) of
      (st, log, (l, chs)) \<Rightarrow>
        log = [FastPath, Queued 0] \<and> waitList l = [0] \<and> count l = 1 \<and>
        Limiter_Wait_select CtxDone 0 (l, chs) =
          Some (Returned, (l, [\<lparr>closed = False, parked = False\<rparr>])) \<and>
        Limiter_Wait_select TimerFired 0 (l, chs) =
          Some (Returned, (l\<lparr>waitList := [], count := 2\<rparr>,
                           [\<lparr>closed = True, parked = False\<rparr>]))) \<and>
   (case Limiter_run [Acquire, Acquire] (New 1 [], []) of
      (st, log, (l, chs)) \<Rightarrow>
        log = [FastPath, Queued 0] \<and> waitList l = [0] \<and> count l = 1 \<and>
        Limiter_Wait_select CtxDone 0 (l, chs) =
          Some (Returned, (l\<lparr>waitList := [], count := 2\<rparr>,
                           [\<lparr>closed = True, parked = False\<rparr>])))"
  by code_simp

text \<open>
  Claim C5 says that firing the signal of an entry whose receiver has gone neither
  blocks nor panics, and that a release popping such an entry completes. The channels
  are unbuffered and \<^verbatim>\<open>Finish\<close> sends inside the lock
  (\<open>Limiter_Finish_blocks\<close>, \<open>PriorityLimiter_Finish_blocks\<close>). On the FIFO gate with a
  timeout configured, the entry of a cancelled caller stays in the wait list after the
  caller has returned; the next release pops it and blocks in the send, and the
  acquire after it blocks on the mutex.
\<close>

theorem release_blocks_on_abandoned_entry:
  "(case Limiter_run [Acquire, Acquire] (New 1 [WithTimeout 5], []) of
      (st, log, s) \<Rightarrow>
        (case Limiter_Wait_select CtxDone 0 s of
           None \<Rightarrow> False
         | Some (st1, s1) \<Rightarrow>
             st1 = Returned \<and> waitList (fst s1) = [0] \<and> \<not> parked (snd s1 ! 0) \<and>
             fst (Limiter_Finish s1) = Blocked \<and>
             mu (fst (snd (Limiter_Finish s1))) \<and>
             fst (Limiter_run [Release, Acquire] s1) = Blocked \<and>
             fst (Limiter_Wait_begin (snd (Limiter_Finish s1))) = Blocked))"
  by code_simp

section \<open>Aging\<close>

lemma promote_level:
  "promote w p = (w', p') \<Longrightarrow>
     Priority w' = (if Priority w < High \<and> pq_member w (p_waitList p)
                    then wrap64 (Priority w + 1) else Priority w)"
  by (auto simp: promote_def pq_Update_def split: if_splits prod.splits)

lemma promote_capped:
  assumes "promote w p = (w', p')" and "int64 (Priority w)" and "Priority w \<le> High"
  shows "Priority w' \<le> High"
proof (cases "Priority w < High \<and> pq_member w (p_waitList p)")
  case True
  with assms(2) have "int64 (Priority w + 1)" by (simp add: int64_def High_def)
  then have "wrap64 (Priority w + 1) = Priority w + 1" by (rule wrap64_id)
  with promote_level [OF assms(1)] True show ?thesis by simp
next
  case False
  with promote_level [OF assms(1)] assms(3) show ?thesis by auto
qed

text \<open>
  Claim C8 says that in both aging configurations a tick first looks whether the entry
  was cancelled or granted and only then promotes, by one level and below High only.
  The promotion is as claimed (\<open>promote_level\<close>, \<open>promote_capped\<close>), and with a timeout
  configured the ticker case polls the context first and removes a cancelled entry. The
  loop for aging alone has no such poll: with the context already cancelled, its ticker
  case promotes the entry from Low to Medium and goes round again.
\<close>

theorem aging_only_tick_promotes_cancelled_entry:
  "(case PriorityLimiter_run [PAcquire High, PAcquire Low]
           (NewLimiter 1 [WithDynamicPriority 10], []) of
      (st, log, (p, chs)) \<Rightarrow>
        log = [FastPath, Queued \<lparr>Done = 0, Priority = 1, sequence = 0\<rparr>] \<and>
        PriorityLimiter_Wait_select TickerFired True
            \<lparr>Done = 0, Priority = 1, sequence = 0\<rparr> (p, chs) =
          Some (Again \<lparr>Done = 0, Priority = 2, sequence = 0\<rparr>, Returned,
                (p\<lparr>p_waitList :=
                     \<lparr>items = [\<lparr>Done = 0, Priority = 2, sequence = 0\<rparr>], arrivals = 1\<rparr>\<rparr>,
                 chs))) \<and>
   (case PriorityLimiter_run [PAcquire High, PAcquire Low]
           (NewLimiter 1 [WithDynamicPriority 10, PriorityLimiter_WithTimeout 50], []) of
      (st, log, (p, chs)) \<Rightarrow>
        log = [FastPath, Queued \<lparr>Done = 0, Priority = 1, sequence = 0\<rparr>] \<and>
        PriorityLimiter_Wait_select TickerFired True
            \<lparr>Done = 0, Priority = 1, sequence = 0\<rparr> (p, chs) =
          Some (Leave, Returned,
                (p\<lparr>p_waitList := \<lparr>items = [], arrivals = 1\<rparr>, p_count := 2\<rparr>,
                 [\<lparr>closed = True, parked = False\<rparr>])))"
  by code_simp

end
